theory Spec2Isabelle
  imports
    Complex_Main
    "HOL-Library.Multiset"
    "HOL-Library.Product_Lexorder"
    "HOL-Library.List_Lexorder"
    "HOL-Library.Char_ord"
begin

section \<open>Data model of \<^verbatim>\<open>chat_process.py\<close>\<close>

text \<open>
  Python integers are unbounded: \<^typ>\<open>int\<close>. Python floats (the drop rate, the delay,
  the clock, the random draws) are the \<^typ>\<open>real\<close> numbers they denote. Comparing two
  floats is exact; adding, subtracting or multiplying them rounds the exact result to a
  float, and that rounding is a parameter of the model. The only exception the modelled
  code raises itself is \<^verbatim>\<open>IndexError\<close>, from indexing a list.
\<close>

datatype error = IndexError

text \<open>
  \<^verbatim>\<open>xs[i]\<close> for a Python list and an integer index: a negative index counts from the
  end, an index outside \<^verbatim>\<open>[-len, len)\<close> raises.
\<close>

definition py_index :: "'a list \<Rightarrow> int \<Rightarrow> error + nat" where
  "py_index xs i =
     (if 0 \<le> i \<and> i < int (length xs) then Inr (nat i)
      else if i < 0 \<and> - int (length xs) \<le> i then Inr (nat (int (length xs) + i))
      else Inl IndexError)"

definition py_get :: "'a list \<Rightarrow> int \<Rightarrow> error + 'a" where
  "py_get xs i = (case py_index xs i of Inl e \<Rightarrow> Inl e | Inr k \<Rightarrow> Inr (xs ! k))"

text \<open>A holdback queue entry \<^verbatim>\<open>(sender, v, message)\<close>.\<close>

type_synonym entry = "int \<times> int list \<times> string"

text \<open>An unacknowledged send \<^verbatim>\<open>(destination, msg_id, message, timestamp)\<close>.\<close>

type_synonym unack = "int \<times> int \<times> string \<times> int list"

text \<open>
  The five fields handed to \<^verbatim>\<open>pack_message\<close>:
  \<^verbatim>\<open>[my_id, msg_id, is_ack, timestamp, message]\<close>; \<^verbatim>\<open>msg_id\<close> may be \<^verbatim>\<open>None\<close>.
\<close>

type_synonym fields = "int \<times> int option \<times> bool \<times> int list \<times> string"

text \<open>
  What \<^verbatim>\<open>unpack_message\<close> returns for a received datagram:
  \<^verbatim>\<open>[sender, message_id, is_ack, message_timestamp, message]\<close>.
\<close>

type_synonym envelope = "int \<times> int \<times> bool \<times> int list \<times> string"

text \<open>An element of the priority queue: \<^verbatim>\<open>(end_time, bytes, ip, port)\<close>.\<close>

type_synonym queued = "real \<times> string \<times> string \<times> int"

text \<open>
  The helpers \<^verbatim>\<open>pack_message\<close>, \<^verbatim>\<open>stringify_vector_timestamp\<close> and the table
  \<^verbatim>\<open>config.config['hosts']\<close> are not part of the sources; they are parameters.
  \<open>pack\<close> stands for the packing followed by \<^verbatim>\<open>.encode("utf-8")\<close>. The third
  parameter \<open>rnd\<close> is the rounding of float arithmetic: the float that an operation
  returns when its exact result is the given real number.
\<close>

record config =
  hosts :: "(string \<times> int) list"
  pack :: "fields \<Rightarrow> string"
  rnd :: "real \<Rightarrow> real"

text \<open>
  The fields of a \<^verbatim>\<open>ChatProcess\<close>. The dictionaries \<^verbatim>\<open>has_received\<close> and
  \<^verbatim>\<open>has_acknowledged\<close> only ever map a key to \<^verbatim>\<open>True\<close> and are only tested with
  \<^verbatim>\<open>in\<close>: they are sets of keys. The \<^verbatim>\<open>PriorityQueue\<close> is the sorted list of its
  elements (\<^verbatim>\<open>put\<close> inserts, \<^verbatim>\<open>get\<close> takes the least tuple). Two fields record the
  effects: \<open>delivered\<close> is the sequence of calls of \<^verbatim>\<open>deliver\<close> (the lines printed),
  \<open>wire\<close> the sequence of calls of \<^verbatim>\<open>sock.sendto\<close>.
\<close>

record chat_state =
  my_id :: int
  delay_time :: real
  drop_rate :: real
  message_id_counter :: int
  has_received :: "(int \<times> int) set"
  has_acknowledged :: "(int \<times> int) set"
  unack_messages :: "unack list"
  holdback_queue :: "entry list"
  queue :: "queued list"
  my_timestamp :: "int list"
  delivered :: "(int \<times> string) list"
  wire :: "(string \<times> string \<times> int) list"

text \<open>\<^verbatim>\<open>ChatProcess.__init__\<close>; \<^verbatim>\<open>[0] * n\<close> is empty for a negative \<^verbatim>\<open>n\<close>.\<close>

definition init :: "int \<Rightarrow> real \<Rightarrow> real \<Rightarrow> int \<Rightarrow> chat_state" where
  "init process_id delay dropr num_processes =
     \<lparr>my_id = process_id, delay_time = delay, drop_rate = dropr,
      message_id_counter = 0, has_received = {}, has_acknowledged = {},
      unack_messages = [], holdback_queue = [], queue = [],
      my_timestamp = replicate (nat num_processes) 0,
      delivered = [], wire = []\<rparr>"

section \<open>The causal delivery engine: \<^verbatim>\<open>update_holdback_queue\<close>\<close>

text \<open>
  The inner loop \<^verbatim>\<open>for i in range(len(v))\<close> over the indices still to visit. It reads
  \<^verbatim>\<open>self.my_timestamp[i]\<close> at every index, whatever \<^verbatim>\<open>should_remove\<close> is by then.
\<close>

fun should_remove_loop :: "int list \<Rightarrow> int \<Rightarrow> int list \<Rightarrow> nat list \<Rightarrow> bool \<Rightarrow> error + bool" where
  "should_remove_loop ts sender v [] should_remove = Inr should_remove"
| "should_remove_loop ts sender v (i # js) should_remove =
     (case py_get ts (int i) of
        Inl e \<Rightarrow> Inl e
      | Inr t \<Rightarrow>
          if int i = sender
          then should_remove_loop ts sender v js (if v ! i \<noteq> t + 1 then False else should_remove)
          else should_remove_loop ts sender v js (if v ! i > t then False else should_remove))"

text \<open>
  The body of the scan for one entry: \<^verbatim>\<open>should_remove = True\<close>, then the inner loop
  over \<^verbatim>\<open>range(len(v))\<close>.
\<close>

definition should_remove :: "int list \<Rightarrow> int \<Rightarrow> int list \<Rightarrow> error + bool" where
  "should_remove ts sender v = should_remove_loop ts sender v [0..<length v] True"

text \<open>
  The scan \<^verbatim>\<open>for sender, v, message in self.holdback_queue\<close>, with its two
  accumulators \<^verbatim>\<open>new_holdback_queue\<close> and \<^verbatim>\<open>removed\<close>. The vector timestamp is not
  written during the scan.
\<close>

fun scan :: "int list \<Rightarrow> entry list \<Rightarrow> entry list \<Rightarrow> entry list \<Rightarrow> error + (entry list \<times> entry list)" where
  "scan ts [] new_holdback_queue removed = Inr (new_holdback_queue, removed)"
| "scan ts ((sender, v, message) # rest) new_holdback_queue removed =
     (case should_remove ts sender v of
        Inl e \<Rightarrow> Inl e
      | Inr remove \<Rightarrow>
          if \<not> remove
          then scan ts rest (new_holdback_queue @ [(sender, v, message)]) removed
          else scan ts rest new_holdback_queue (removed @ [(sender, v, message)]))"

text \<open>\<^verbatim>\<open>deliver\<close> prints one line; the model appends the call to the log.\<close>

definition deliver :: "int \<Rightarrow> string \<Rightarrow> chat_state \<Rightarrow> chat_state" where
  "deliver sender message st = st\<lparr>delivered := delivered st @ [(sender, message)]\<rparr>"

text \<open>
  The loop \<^verbatim>\<open>for sender, v, message in removed\<close>. A sender outside the vector raises
  at \<^verbatim>\<open>self.my_timestamp[sender]\<close>, leaving the increments and deliveries made so far.
\<close>

fun deliver_removed :: "entry list \<Rightarrow> chat_state \<Rightarrow> (error + unit) \<times> chat_state" where
  "deliver_removed [] st = (Inr (), st)"
| "deliver_removed ((sender, v, message) # rest) st =
     (case py_index (my_timestamp st) sender of
        Inl e \<Rightarrow> (Inl e, st)
      | Inr k \<Rightarrow>
          deliver_removed rest
            (deliver sender message
               (st\<lparr>my_timestamp := (my_timestamp st)[k := my_timestamp st ! k + 1]\<rparr>)))"

text \<open>
  One iteration of \<^verbatim>\<open>while True\<close>. The result says whether the loop breaks
  (\<^verbatim>\<open>len(removed) == 0\<close>). On an exception \<^verbatim>\<open>self.holdback_queue\<close> has not been
  assigned yet.
\<close>

definition holdback_pass :: "chat_state \<Rightarrow> (error + bool) \<times> chat_state" where
  "holdback_pass st =
     (case scan (my_timestamp st) (holdback_queue st) [] [] of
        Inl e \<Rightarrow> (Inl e, st)
      | Inr (new_holdback_queue, removed) \<Rightarrow>
          (case deliver_removed removed st of
             (Inl e, st') \<Rightarrow> (Inl e, st')
           | (Inr u, st') \<Rightarrow>
               (Inr (length removed = 0), st'\<lparr>holdback_queue := new_holdback_queue\<rparr>)))"

lemma should_remove_loop_total:
  "\<forall>i \<in> set js. i < length ts \<Longrightarrow> \<exists>b. should_remove_loop ts sender v js sr = Inr b"
  by (induction js arbitrary: sr) (auto simp: py_get_def py_index_def)

lemma scan_lengths:
  "scan ts q new removed = Inr (new', removed') \<Longrightarrow>
     length new' + length removed' = length new + length removed + length q"
proof (induction q arbitrary: new removed)
  case Nil
  then show ?case by simp
next
  case (Cons e q)
  obtain sender v message where e: "e = (sender, v, message)"
    by (cases e)
  from Cons.prems show ?case
    unfolding e
    by (auto split: sum.splits if_splits dest!: Cons.IH)
qed

lemma deliver_removed_holdback:
  "holdback_queue (snd (deliver_removed removed st)) = holdback_queue st"
  by (induction removed st rule: deliver_removed.induct)
     (auto simp: deliver_def split: sum.splits)

lemma holdback_pass_shrinks:
  assumes "holdback_pass st = (Inr False, st')"
  shows "length (holdback_queue st') < length (holdback_queue st)"
proof -
  from assms obtain new removed where
    sc: "scan (my_timestamp st) (holdback_queue st) [] [] = Inr (new, removed)"
    and ne: "removed \<noteq> []" and hq: "holdback_queue st' = new"
    by (auto simp: holdback_pass_def split: sum.splits prod.splits)
  from scan_lengths[OF sc] ne hq show ?thesis
    by (cases removed) auto
qed

text \<open>\<^verbatim>\<open>update_holdback_queue\<close>: the passes are repeated until one removes nothing.\<close>

function update_holdback_queue :: "chat_state \<Rightarrow> (error + unit) \<times> chat_state" where
  "update_holdback_queue st =
     (case holdback_pass st of
        (Inl e, st') \<Rightarrow> (Inl e, st')
      | (Inr stop, st') \<Rightarrow> if stop then (Inr (), st') else update_holdback_queue st')"
  by pat_completeness auto
termination
  by (relation "measure (\<lambda>st. length (holdback_queue st))")
     (auto dest: holdback_pass_shrinks[OF sym])

text \<open>
  The states in which the passes of one call start, in order: the first is the state of
  the call, and a pass that removed something is followed by another.
\<close>

function pass_states :: "chat_state \<Rightarrow> chat_state list" where
  "pass_states st =
     st # (case holdback_pass st of
             (Inl e, st') \<Rightarrow> []
           | (Inr stop, st') \<Rightarrow> if stop then [] else pass_states st')"
  by pat_completeness auto
termination
  by (relation "measure (\<lambda>st. length (holdback_queue st))")
     (auto dest: holdback_pass_shrinks[OF sym])

declare update_holdback_queue.simps [simp del] pass_states.simps [simp del]

section \<open>The send path: \<^verbatim>\<open>unicast_send\<close>, \<^verbatim>\<open>multicast\<close>, the drain loop\<close>

text \<open>
  What one call of \<^verbatim>\<open>unicast_send\<close> draws from outside: \<^verbatim>\<open>random.random()\<close> for the
  drop, the \<^verbatim>\<open>random()\<close> inside \<^verbatim>\<open>random.uniform\<close> for the delay, and
  \<^verbatim>\<open>time.time()\<close>. The first two lie in \<open>[0, 1)\<close>.
\<close>

record draw =
  drop_draw :: real
  delay_draw :: real
  clock :: real

text \<open>
  \<^verbatim>\<open>random.uniform(a, b)\<close> is \<^verbatim>\<open>a + (b - a) * random()\<close>, three float operations,
  each rounded by \<open>r\<close>.
\<close>

definition uniform :: "(real \<Rightarrow> real) \<Rightarrow> real \<Rightarrow> real \<Rightarrow> real \<Rightarrow> real" where
  "uniform r a b u = r (a + r (r (b - a) * u))"

text \<open>
  \<^verbatim>\<open>unicast_send(destination, message, msg_id=None, is_ack=False, timestamp=None)\<close>.
  The table of hosts is read after the drop, so a dropped packet never raises.
\<close>

definition unicast_send ::
  "config \<Rightarrow> draw \<Rightarrow> int \<Rightarrow> string \<Rightarrow> int option \<Rightarrow> bool \<Rightarrow> int list option \<Rightarrow>
   chat_state \<Rightarrow> (error + unit) \<times> chat_state" where
  "unicast_send cfg d destination message msg_id is_ack timestamp st =
     (let timestamp = (case timestamp of None \<Rightarrow> my_timestamp st | Some t \<Rightarrow> t);
          fresh = message_id_counter st + 1;
          st1 = (if \<not> is_ack \<and> msg_id = None
                 then st\<lparr>message_id_counter := fresh,
                         unack_messages :=
                           unack_messages st @ [(destination, fresh, message, timestamp)]\<rparr>
                 else st);
          msg_id = (if \<not> is_ack \<and> msg_id = None then Some fresh else msg_id)
      in if drop_draw d \<le> drop_rate st1 then (Inr (), st1)
         else
           (case py_get (hosts cfg) destination of
              Inl e \<Rightarrow> (Inl e, st1)
            | Inr (ip, port) \<Rightarrow>
                let delay = uniform (rnd cfg) 0 (rnd cfg (2 * delay_time st1)) (delay_draw d);
                    end_time = rnd cfg (clock d + delay)
                in (Inr (),
                    st1\<lparr>queue :=
                          insort (end_time,
                                  pack cfg (my_id st1, msg_id, is_ack, timestamp, message),
                                  ip, port) (queue st1)\<rparr>)))"

text \<open>
  \<^verbatim>\<open>multicast\<close>: one \<^verbatim>\<open>unicast_send(id, message)\<close> for every index of the table of
  hosts; the call for index \<open>i\<close> takes the draw \<open>ds i\<close>.
\<close>

fun multicast_loop ::
  "config \<Rightarrow> (nat \<Rightarrow> draw) \<Rightarrow> nat list \<Rightarrow> string \<Rightarrow> chat_state \<Rightarrow> (error + unit) \<times> chat_state" where
  "multicast_loop cfg ds [] message st = (Inr (), st)"
| "multicast_loop cfg ds (i # ids) message st =
     (case unicast_send cfg (ds i) (int i) message None False None st of
        (Inl e, st') \<Rightarrow> (Inl e, st')
      | (Inr u, st') \<Rightarrow> multicast_loop cfg ds ids message st')"

definition multicast :: "config \<Rightarrow> (nat \<Rightarrow> draw) \<Rightarrow> string \<Rightarrow> chat_state \<Rightarrow> (error + unit) \<times> chat_state" where
  "multicast cfg ds message st = multicast_loop cfg ds [0..<length (hosts cfg)] message st"

text \<open>
  One iteration of \<^verbatim>\<open>message_queue_handler\<close>, \<open>now\<close> being its reading of
  \<^verbatim>\<open>time.time()\<close>. On an empty queue \<^verbatim>\<open>get(block=True)\<close> waits: nothing changes.
\<close>

definition message_queue_step :: "real \<Rightarrow> chat_state \<Rightarrow> chat_state" where
  "message_queue_step now st =
     (case queue st of
        [] \<Rightarrow> st
      | (send_time, message, ip, port) # rest \<Rightarrow>
          if send_time \<le> now
          then st\<lparr>queue := rest, wire := wire st @ [(message, ip, port)]\<rparr>
          else st\<lparr>queue := insort (send_time, message, ip, port) rest\<rparr>)"

section \<open>The receive path: \<^verbatim>\<open>unicast_receive\<close>\<close>

text \<open>
  \<^verbatim>\<open>unicast_receive\<close> on the datagram that \<^verbatim>\<open>recvfrom\<close> returned, already unpacked.
  A timeout of the socket raises before anything is done and is caught by the caller, so
  it is no step of the model.
\<close>

definition unicast_receive ::
  "config \<Rightarrow> draw \<Rightarrow> envelope \<Rightarrow> chat_state \<Rightarrow> (error + bool) \<times> chat_state" where
  "unicast_receive cfg d env st =
     (case env of (sender, message_id, is_ack, message_timestamp, message) \<Rightarrow>
        if is_ack
        then (Inr False, st\<lparr>has_acknowledged := insert (sender, message_id) (has_acknowledged st)\<rparr>)
        else
          (case unicast_send cfg d sender [] (Some message_id) True None st of
             (Inl e, st1) \<Rightarrow> (Inl e, st1)
           | (Inr u, st1) \<Rightarrow>
               if (sender, message_id) \<notin> has_received st1
               then
                 (case update_holdback_queue
                         (st1\<lparr>has_received := insert (sender, message_id) (has_received st1),
                              holdback_queue :=
                                holdback_queue st1 @ [(sender, message_timestamp, message)]\<rparr>) of
                    (Inl e, st2) \<Rightarrow> (Inl e, st2)
                  | (Inr u, st2) \<Rightarrow> (Inr True, st2))
               else (Inr False, st1)))"

section \<open>Retransmission and user input\<close>

text \<open>
  The scan of \<^verbatim>\<open>ack_handler\<close> over \<^verbatim>\<open>self.unack_messages\<close>, after its sleep. The
  calls of \<^verbatim>\<open>unicast_send\<close> here pass a message id, so they do not append to the list
  that is being scanned. The entry at position \<open>i\<close> takes the draw \<open>ds i\<close>.
\<close>

fun ack_loop ::
  "config \<Rightarrow> (nat \<Rightarrow> draw) \<Rightarrow> nat \<Rightarrow> unack list \<Rightarrow> unack list \<Rightarrow> chat_state \<Rightarrow>
   (error + unack list) \<times> chat_state" where
  "ack_loop cfg ds i [] new_unack_messages st = (Inr new_unack_messages, st)"
| "ack_loop cfg ds i ((dest_id, message_id, message, message_timestamp) # rest)
       new_unack_messages st =
     (if (dest_id, message_id) \<notin> has_acknowledged st
      then
        (case unicast_send cfg (ds i) dest_id message (Some message_id) False
                (Some message_timestamp) st of
           (Inl e, st') \<Rightarrow> (Inl e, st')
         | (Inr u, st') \<Rightarrow>
             ack_loop cfg ds (Suc i) rest
               (new_unack_messages @ [(dest_id, message_id, message, message_timestamp)]) st')
      else ack_loop cfg ds (Suc i) rest new_unack_messages st)"

definition ack_tick :: "config \<Rightarrow> (nat \<Rightarrow> draw) \<Rightarrow> chat_state \<Rightarrow> (error + unit) \<times> chat_state" where
  "ack_tick cfg ds st =
     (case ack_loop cfg ds 0 (unack_messages st) [] st of
        (Inl e, st') \<Rightarrow> (Inl e, st')
      | (Inr new_unack_messages, st') \<Rightarrow>
          (Inr (), st'\<lparr>unack_messages := new_unack_messages\<rparr>))"

text \<open>
  The body of \<^verbatim>\<open>user_input_handler\<close> for one line of input: \<^verbatim>\<open>line[:-1]\<close>, the
  increment of the own entry, the multicast.
\<close>

definition user_input_line ::
  "config \<Rightarrow> (nat \<Rightarrow> draw) \<Rightarrow> string \<Rightarrow> chat_state \<Rightarrow> (error + unit) \<times> chat_state" where
  "user_input_line cfg ds line st =
     (case py_index (my_timestamp st) (my_id st) of
        Inl e \<Rightarrow> (Inl e, st)
      | Inr k \<Rightarrow>
          multicast cfg ds (butlast line)
            (st\<lparr>my_timestamp := (my_timestamp st)[k := my_timestamp st ! k + 1]\<rparr>))"

section \<open>The four threads of \<^verbatim>\<open>run\<close>\<close>

text \<open>
  Each thread repeats one operation for ever. An execution is a sequence of operations,
  each run to its end before the next starts (finer interleavings of the threads are not
  modelled). An exception that an operation raises ends its thread: the operations of
  that thread that follow in the sequence do not happen.
\<close>

datatype thread =
  Ack_handler | Message_queue_handler | Incoming_message_handler | User_input_handler

datatype event =
  Tick "nat \<Rightarrow> draw"
  | Drain real
  | Datagram draw envelope
  | Line "nat \<Rightarrow> draw" string

fun thread_of :: "event \<Rightarrow> thread" where
  "thread_of (Tick ds) = Ack_handler"
| "thread_of (Drain now) = Message_queue_handler"
| "thread_of (Datagram d env) = Incoming_message_handler"
| "thread_of (Line ds line) = User_input_handler"

fun step :: "config \<Rightarrow> event \<Rightarrow> chat_state \<Rightarrow> (error + unit) \<times> chat_state" where
  "step cfg (Tick ds) st = ack_tick cfg ds st"
| "step cfg (Drain now) st = (Inr (), message_queue_step now st)"
| "step cfg (Datagram d env) st =
     (case unicast_receive cfg d env st of
        (Inl e, st') \<Rightarrow> (Inl e, st')
      | (Inr new_message, st') \<Rightarrow> (Inr (), st'))"
| "step cfg (Line ds line) st = user_input_line cfg ds line st"

fun run :: "config \<Rightarrow> event list \<Rightarrow> thread set \<times> chat_state \<Rightarrow> thread set \<times> chat_state" where
  "run cfg [] (dead, st) = (dead, st)"
| "run cfg (ev # evs) (dead, st) =
     (if thread_of ev \<in> dead then run cfg evs (dead, st)
      else
        (case step cfg ev st of
           (Inl e, st') \<Rightarrow> run cfg evs (insert (thread_of ev) dead, st')
         | (Inr u, st') \<Rightarrow> run cfg evs (dead, st')))"

section \<open>The earlier program \<^verbatim>\<open>main.py\<close>\<close>

text \<open>
  \<^verbatim>\<open>main.py\<close> has no vector timestamps, no holdback queue and no send queue; a packet
  has four fields and is written to the socket at once. Its state, with the sequence of
  calls of \<^verbatim>\<open>sock.sendto\<close>:
\<close>

record main_config =
  main_hosts :: "(string \<times> int) list"
  main_pack :: "int \<times> int \<times> bool \<times> string \<Rightarrow> string"

record main_state =
  my_ID :: int
  message_id :: int
  main_has_received :: "(int \<times> int) set"
  main_has_acknowledged :: "(int \<times> int) set"
  main_unack_messages :: "(int \<times> int \<times> string) list"
  main_drop_rate :: real
  main_wire :: "(string \<times> string \<times> int) list"

text \<open>
  \<^verbatim>\<open>Main.unicast_send(destination, message, is_ack=False, ack_message_id=0)\<close>; \<open>r\<close> is
  its \<^verbatim>\<open>random.random()\<close>.
\<close>

definition main_unicast_send ::
  "main_config \<Rightarrow> real \<Rightarrow> int \<Rightarrow> string \<Rightarrow> bool \<Rightarrow> int \<Rightarrow> main_state \<Rightarrow>
   (error + unit) \<times> main_state" where
  "main_unicast_send cfg r destination message is_ack ack_message_id st =
     (case py_get (main_hosts cfg) destination of
        Inl e \<Rightarrow> (Inl e, st)
      | Inr (ip, port) \<Rightarrow>
          let fresh = message_id st + 1;
              st1 = (if \<not> is_ack
                     then st\<lparr>message_id := fresh,
                             main_unack_messages :=
                               main_unack_messages st @ [(my_ID st, fresh, message)]\<rparr>
                     else st);
              id = (if \<not> is_ack then fresh else ack_message_id)
          in if r \<le> main_drop_rate st1 then (Inr (), st1)
             else (Inr (),
                   st1\<lparr>main_wire :=
                         main_wire st1 @
                           [(main_pack cfg (my_ID st1, id, is_ack, message), ip, port)]\<rparr>))"

text \<open>
  \<^verbatim>\<open>Main.unicast_receive\<close> on an unpacked datagram
  \<^verbatim>\<open>(sender, message_id, is_ack, message)\<close>; it returns \<^verbatim>\<open>(sender, message)\<close> or
  \<^verbatim>\<open>(sender, None)\<close>.
\<close>

definition main_unicast_receive ::
  "main_config \<Rightarrow> real \<Rightarrow> int \<times> int \<times> bool \<times> string \<Rightarrow> main_state \<Rightarrow>
   (error + int \<times> string option) \<times> main_state" where
  "main_unicast_receive cfg r env st =
     (case env of (sender, mid, is_ack, message) \<Rightarrow>
        if is_ack
        then (Inr (sender, None),
              st\<lparr>main_has_acknowledged := insert (sender, mid) (main_has_acknowledged st)\<rparr>)
        else
          (case main_unicast_send cfg r sender [] True mid st of
             (Inl e, st1) \<Rightarrow> (Inl e, st1)
           | (Inr u, st1) \<Rightarrow>
               if (sender, mid) \<in> main_has_received st1
               then (Inr (sender, Some message),
                     st1\<lparr>main_has_received := insert (sender, mid) (main_has_received st1)\<rparr>)
               else (Inr (sender, None), st1)))"

fun main_multicast_loop ::
  "main_config \<Rightarrow> (nat \<Rightarrow> real) \<Rightarrow> nat list \<Rightarrow> string \<Rightarrow> main_state \<Rightarrow>
   (error + unit) \<times> main_state" where
  "main_multicast_loop cfg rs [] message st = (Inr (), st)"
| "main_multicast_loop cfg rs (i # ids) message st =
     (case main_unicast_send cfg (rs i) (int i) message False 0 st of
        (Inl e, st') \<Rightarrow> (Inl e, st')
      | (Inr u, st') \<Rightarrow> main_multicast_loop cfg rs ids message st')"

definition main_multicast ::
  "main_config \<Rightarrow> (nat \<Rightarrow> real) \<Rightarrow> string \<Rightarrow> main_state \<Rightarrow> (error + unit) \<times> main_state" where
  "main_multicast cfg rs message st =
     main_multicast_loop cfg rs [0..<length (main_hosts cfg)] message st"

text \<open>
  The scan of \<^verbatim>\<open>Main.process_ack\<close>. The loop runs over the list
  \<^verbatim>\<open>self.unack_messages\<close> itself while \<^verbatim>\<open>multicast\<close> appends to it, so it is a loop
  over positions that ends when the position reaches the current length. It need not end:
  the model counts the iterations down from \<open>fuel\<close> and returns \<open>None\<close> when they are used
  up. The iteration at position \<open>i\<close> takes the draws \<open>rs i\<close>.
\<close>

fun main_process_ack_loop ::
  "nat \<Rightarrow> main_config \<Rightarrow> (nat \<Rightarrow> nat \<Rightarrow> real) \<Rightarrow> nat \<Rightarrow> (int \<times> int \<times> string) list \<Rightarrow>
   main_state \<Rightarrow> ((error + (int \<times> int \<times> string) list) \<times> main_state) option" where
  "main_process_ack_loop fuel cfg rs i new_unack_messages st =
     (if i \<ge> length (main_unack_messages st) then Some (Inr new_unack_messages, st)
      else
        (case fuel of
           0 \<Rightarrow> None
         | Suc fuel' \<Rightarrow>
             (case main_unack_messages st ! i of (dest_id, mid, message) \<Rightarrow>
                if (dest_id, mid) \<notin> main_has_acknowledged st
                then
                  (case main_multicast cfg (rs i) message st of
                     (Inl e, st') \<Rightarrow> Some (Inl e, st')
                   | (Inr u, st') \<Rightarrow>
                       main_process_ack_loop fuel' cfg rs (Suc i)
                         (new_unack_messages @ [(dest_id, mid, message)]) st')
                else main_process_ack_loop fuel' cfg rs (Suc i) new_unack_messages st)))"

definition main_process_ack ::
  "nat \<Rightarrow> main_config \<Rightarrow> (nat \<Rightarrow> nat \<Rightarrow> real) \<Rightarrow> main_state \<Rightarrow>
   ((error + unit) \<times> main_state) option" where
  "main_process_ack fuel cfg rs st =
     (case main_process_ack_loop fuel cfg rs 0 [] st of
        None \<Rightarrow> None
      | Some (Inl e, st') \<Rightarrow> Some (Inl e, st')
      | Some (Inr new_unack_messages, st') \<Rightarrow>
          Some (Inr (), st'\<lparr>main_unack_messages := new_unack_messages\<rparr>))"


section \<open>The release rule as the specification words it\<close>

text \<open>
  An entry with sender \<open>s\<close> and timestamp \<open>T\<close> is releasable at the vector timestamp
  \<open>V\<close> iff \<open>T[s] = V[s] + 1\<close> and \<open>T[i] \<le> V[i]\<close> at every other index. The rule is
  stated for entries of the data model: a sender in \<open>[0, N)\<close> and a timestamp of
  \<open>N\<close> entries, where \<open>N\<close> is the length of the vector timestamp.
\<close>

definition release_rule :: "int list \<Rightarrow> entry \<Rightarrow> bool" where
  "release_rule V e =
     (case e of (s, T, payload) \<Rightarrow>
        T ! nat s = V ! nat s + 1 \<and> (\<forall>i \<in> {0..<length T}. int i \<noteq> s \<longrightarrow> T ! i \<le> V ! i))"

definition wf_entry :: "nat \<Rightarrow> entry \<Rightarrow> bool" where
  "wf_entry n e = (case e of (s, T, payload) \<Rightarrow> 0 \<le> s \<and> s < int n \<and> length T = n)"

definition wf_engine :: "chat_state \<Rightarrow> bool" where
  "wf_engine st = list_all (wf_entry (length (my_timestamp st))) (holdback_queue st)"

text \<open>What the scan decides for an entry of the queue.\<close>

definition removable :: "int list \<Rightarrow> entry \<Rightarrow> error + bool" where
  "removable ts e = (case e of (sender, v, message) \<Rightarrow> should_remove ts sender v)"

lemma should_remove_loop_value:
  "\<forall>i \<in> set js. i < length ts \<Longrightarrow>
   should_remove_loop ts sender v js sr =
     Inr (sr \<and> (\<forall>i \<in> set js. if int i = sender then v ! i = ts ! i + 1 else v ! i \<le> ts ! i))"
  by (induction js arbitrary: sr) (auto simp: py_get_def py_index_def)

lemma should_remove_loop_error:
  "\<not> (\<forall>i \<in> set js. i < length ts) \<Longrightarrow> should_remove_loop ts sender v js sr = Inl IndexError"
  by (induction js arbitrary: sr) (auto simp: py_get_def py_index_def Let_def)

lemma removable_wf:
  assumes "wf_entry (length ts) e"
  shows "removable ts e = Inr (release_rule ts e)"
proof -
  obtain s T m where e: "e = (s, T, m)" by (cases e)
  from assms have s: "0 \<le> s" "s < int (length ts)" and T: "length T = length ts"
    by (auto simp: e wf_entry_def)
  have "should_remove ts s T =
      Inr (\<forall>i \<in> set [0..<length T]. if int i = s then T ! i = ts ! i + 1 else T ! i \<le> ts ! i)"
    unfolding should_remove_def using T by (subst should_remove_loop_value) auto
  moreover have "(\<forall>i \<in> set [0..<length T]. if int i = s then T ! i = ts ! i + 1 else T ! i \<le> ts ! i)
      = release_rule ts e"
  proof -
    have "nat s < length T" "int (nat s) = s" using s T by auto
    then show ?thesis
      unfolding release_rule_def e by (auto split: if_splits)
  qed
  ultimately show ?thesis by (simp add: removable_def e)
qed

lemma scan_value:
  "scan ts q new removed = Inr (new', removed') \<Longrightarrow>
     new' = new @ filter (\<lambda>e. removable ts e = Inr False) q \<and>
     removed' = removed @ filter (\<lambda>e. removable ts e = Inr True) q \<and>
     (\<forall>e \<in> set q. removable ts e \<noteq> Inl IndexError)"
proof (induction q arbitrary: new removed)
  case Nil
  then show ?case by simp
next
  case (Cons e q)
  obtain sender v message where e: "e = (sender, v, message)"
    by (cases e)
  from Cons.prems show ?case
    unfolding e
    by (auto simp: removable_def split: sum.splits if_splits dest!: Cons.IH)
qed

lemma scan_total:
  "\<forall>e \<in> set q. removable ts e \<noteq> Inl IndexError \<Longrightarrow> \<exists>r. scan ts q new removed = Inr r"
proof (induction q arbitrary: new removed)
  case Nil
  then show ?case by simp
next
  case (Cons e q)
  obtain sender v message where e: "e = (sender, v, message)"
    by (cases e)
  from Cons.prems have "\<exists>b. should_remove ts sender v = Inr b"
    unfolding e removable_def by (cases "should_remove ts sender v") (auto, metis error.exhaust)
  with Cons show ?case
    unfolding e by (auto split: sum.splits)
qed




text \<open>
  The one mutation of the vector timestamp, \<^verbatim>\<open>V[k] = V[k] + 1\<close>; the call of
  \<^verbatim>\<open>deliver\<close> an entry leads to; the index Python reads for \<^verbatim>\<open>V[sender]\<close>.
\<close>

definition incr :: "int list \<Rightarrow> nat \<Rightarrow> int list" where
  "incr V k = V[k := V ! k + 1]"

definition call :: "entry \<Rightarrow> int \<times> string" where
  "call e = (case e of (sender, v, message) \<Rightarrow> (sender, message))"

definition slot :: "nat \<Rightarrow> entry \<Rightarrow> nat" where
  "slot n e = nat (if fst e < 0 then int n + fst e else fst e)"

lemma py_index_in_range:
  "0 \<le> i \<Longrightarrow> i < int (length xs) \<Longrightarrow> py_index xs i = Inr (nat i)"
  by (simp add: py_index_def)

lemma py_index_bound: "py_index xs i = Inr k \<Longrightarrow> k < length xs"
  by (auto simp: py_index_def Let_def split: if_splits)

lemma py_index_slot: "py_index xs s = Inr k \<Longrightarrow> k = slot (length xs) (s, v, m)"
  by (auto simp: py_index_def slot_def Let_def split: if_splits)

lemma length_incr [simp]: "length (incr V k) = length V"
  by (simp add: incr_def)

lemma length_foldl_incr [simp]: "length (foldl incr V ks) = length V"
  by (induction ks arbitrary: V) auto

lemma call_simp [simp]: "call (sender, v, message) = (sender, message)"
  by (simp add: call_def)

text \<open>The loop of deliveries, on any entries: how far it got and what it did.\<close>

lemma deliver_removed_any:
  "\<exists>n \<le> length removed.
     (fst (deliver_removed removed st) = Inr () \<longrightarrow> n = length removed) \<and>
     (\<forall>e \<in> set (take n removed). slot (length (my_timestamp st)) e < length (my_timestamp st)) \<and>
     snd (deliver_removed removed st) =
       st\<lparr>my_timestamp :=
            foldl incr (my_timestamp st) (map (slot (length (my_timestamp st))) (take n removed)),
          delivered := delivered st @ map call (take n removed)\<rparr>"
proof (induction removed st rule: deliver_removed.induct)
  case (1 st)
  then show ?case by simp
next
  case (2 sender v message rest st)
  let ?V = "my_timestamp st"
  show ?case
  proof (cases "py_index ?V sender")
    case (Inl e)
    show ?thesis
      by (rule exI[of _ 0]) (simp add: Inl)
  next
    case (Inr k)
    let ?st1 = "deliver sender message (st\<lparr>my_timestamp := ?V[k := ?V ! k + 1]\<rparr>)"
    have V1: "my_timestamp ?st1 = incr ?V k" and d1: "delivered ?st1 = delivered st @ [(sender, message)]"
      by (simp_all add: deliver_def incr_def)
    have len1: "length (my_timestamp ?st1) = length ?V"
      by (simp add: V1)
    have eq: "deliver_removed ((sender, v, message) # rest) st = deliver_removed rest ?st1"
      by (simp add: Inr)
    from "2.IH"[OF Inr] obtain n where n: "n \<le> length rest"
      and full: "fst (deliver_removed rest ?st1) = Inr () \<longrightarrow> n = length rest"
      and inr: "\<forall>e \<in> set (take n rest). slot (length ?V) e < length ?V"
      and st': "snd (deliver_removed rest ?st1) =
         ?st1\<lparr>my_timestamp := foldl incr (incr ?V k) (map (slot (length ?V)) (take n rest)),
               delivered := (delivered st @ [(sender, message)]) @ map call (take n rest)\<rparr>"
      unfolding V1 d1 length_incr by blast
    have k: "k < length ?V" "k = slot (length ?V) (sender, v, message)"
      using Inr by (rule py_index_bound, rule py_index_slot)
    have "snd (deliver_removed ((sender, v, message) # rest) st) =
        st\<lparr>my_timestamp :=
            foldl incr ?V (map (slot (length ?V)) (take (Suc n) ((sender, v, message) # rest))),
          delivered := delivered st @ map call (take (Suc n) ((sender, v, message) # rest))\<rparr>"
      unfolding eq st' using k(2) by (simp add: deliver_def)
    moreover have "\<forall>e \<in> set (take (Suc n) ((sender, v, message) # rest)).
        slot (length ?V) e < length ?V"
      using inr k by simp
    moreover have "fst (deliver_removed ((sender, v, message) # rest) st) = Inr () \<longrightarrow>
        Suc n = length ((sender, v, message) # rest)"
      unfolding eq using full by simp
    moreover have "Suc n \<le> length ((sender, v, message) # rest)"
      using n by simp
    ultimately show ?thesis by blast
  qed
qed

lemma deliver_removed_ok:
  assumes "fst (deliver_removed removed st) = Inr ()"
  shows "snd (deliver_removed removed st) =
       st\<lparr>my_timestamp :=
            foldl incr (my_timestamp st) (map (slot (length (my_timestamp st))) removed),
          delivered := delivered st @ map call removed\<rparr>"
    and "\<forall>e \<in> set removed. slot (length (my_timestamp st)) e < length (my_timestamp st)"
  using deliver_removed_any[of removed st] assms by auto

lemma slot_wf: "wf_entry n e \<Longrightarrow> slot n e = nat (fst e) \<and> slot n e < n"
  by (cases e) (auto simp: wf_entry_def slot_def)

lemma deliver_removed_wf:
  "list_all (wf_entry (length (my_timestamp st))) removed \<Longrightarrow>
   fst (deliver_removed removed st) = Inr ()"
proof (induction removed st rule: deliver_removed.induct)
  case (1 st)
  then show ?case by simp
next
  case (2 sender v message rest st)
  from "2.prems" have rest: "list_all (wf_entry (length (my_timestamp st))) rest"
    by simp
  from "2.prems" have s: "0 \<le> sender" "sender < int (length (my_timestamp st))"
    by (auto simp: wf_entry_def)
  have ix: "py_index (my_timestamp st) sender = Inr (nat sender)"
    using s by (rule py_index_in_range)
  show ?case
    using "2.IH"[OF ix] rest
    by (simp add: ix deliver_def)
qed

lemma foldl_incr_nth:
  "k < length V \<Longrightarrow> foldl incr V ks ! k = V ! k + int (length (filter (\<lambda>j. j = k) ks))"
proof (induction ks arbitrary: V)
  case Nil
  then show ?case by simp
next
  case (Cons j ks)
  have "foldl incr (incr V j) ks ! k = incr V j ! k + int (length (filter (\<lambda>j. j = k) ks))"
    using Cons.prems by (intro Cons.IH) simp
  moreover have "incr V j ! k = V ! k + (if j = k then 1 else 0)"
    using Cons.prems by (auto simp: incr_def nth_list_update)
  ultimately show ?case by simp
qed


text \<open>The entries a pass removes and the entries it keeps.\<close>

definition released :: "chat_state \<Rightarrow> entry list" where
  "released st = filter (\<lambda>e. removable (my_timestamp st) e = Inr True) (holdback_queue st)"

definition kept :: "chat_state \<Rightarrow> entry list" where
  "kept st = filter (\<lambda>e. removable (my_timestamp st) e = Inr False) (holdback_queue st)"

lemma holdback_pass_cases:
  obtains (scan_raises) e where "scan (my_timestamp st) (holdback_queue st) [] [] = Inl e"
      "holdback_pass st = (Inl e, st)"
  | (deliver_raises) e where
      "scan (my_timestamp st) (holdback_queue st) [] [] = Inr (kept st, released st)"
      "fst (deliver_removed (released st) st) = Inl e"
      "holdback_pass st = (Inl e, snd (deliver_removed (released st) st))"
  | (returns)
      "scan (my_timestamp st) (holdback_queue st) [] [] = Inr (kept st, released st)"
      "fst (deliver_removed (released st) st) = Inr ()"
      "holdback_pass st =
         (Inr (released st = []),
          (snd (deliver_removed (released st) st))\<lparr>holdback_queue := kept st\<rparr>)"
proof (cases "scan (my_timestamp st) (holdback_queue st) [] []")
  case (Inl e)
  then have "holdback_pass st = (Inl e, st)"
    by (simp add: holdback_pass_def)
  with Inl show ?thesis by (rule scan_raises)
next
  case (Inr r)
  obtain new removed where r: "r = (new, removed)" by (cases r)
  from scan_value[OF Inr[unfolded r]]
  have sc: "scan (my_timestamp st) (holdback_queue st) [] [] = Inr (kept st, released st)"
    and new: "new = kept st" and removed: "removed = released st"
    using Inr r by (simp_all add: kept_def released_def)
  obtain x st1 where d: "deliver_removed (released st) st = (x, st1)"
    by (cases "deliver_removed (released st) st")
  show ?thesis
  proof (cases x)
    case (Inl e)
    have "holdback_pass st = (Inl e, snd (deliver_removed (released st) st))"
      by (simp add: holdback_pass_def sc d Inl)
    moreover have "fst (deliver_removed (released st) st) = Inl e"
      by (simp add: d Inl)
    ultimately show ?thesis using sc by (intro deliver_raises)
  next
    case (Inr u)
    have "holdback_pass st =
         (Inr (released st = []),
          (snd (deliver_removed (released st) st))\<lparr>holdback_queue := kept st\<rparr>)"
      by (simp add: holdback_pass_def sc d Inr)
    moreover have "fst (deliver_removed (released st) st) = Inr ()"
      by (simp add: d Inr)
    ultimately show ?thesis using sc by (intro returns)
  qed
qed

lemma holdback_pass_ok:
  assumes "holdback_pass st = (Inr stop, st')"
  shows "st' = st\<lparr>my_timestamp :=
                   foldl incr (my_timestamp st) (map (slot (length (my_timestamp st))) (released st)),
                 delivered := delivered st @ map call (released st),
                 holdback_queue := kept st\<rparr>"
    and "stop = (released st = [])"
    and "\<forall>e \<in> set (holdback_queue st). removable (my_timestamp st) e \<noteq> Inl IndexError"
    and "\<forall>e \<in> set (released st). slot (length (my_timestamp st)) e < length (my_timestamp st)"
proof -
  have *: "scan (my_timestamp st) (holdback_queue st) [] [] = Inr (kept st, released st) \<and>
      fst (deliver_removed (released st) st) = Inr () \<and>
      holdback_pass st =
         (Inr (released st = []),
          (snd (deliver_removed (released st) st))\<lparr>holdback_queue := kept st\<rparr>)"
    using assms by (cases st rule: holdback_pass_cases) simp_all
  then have sc: "scan (my_timestamp st) (holdback_queue st) [] [] = Inr (kept st, released st)"
    and ok: "fst (deliver_removed (released st) st) = Inr ()"
    and hp: "holdback_pass st =
         (Inr (released st = []),
          (snd (deliver_removed (released st) st))\<lparr>holdback_queue := kept st\<rparr>)"
    by blast+
  from hp assms show "stop = (released st = [])" by simp
  from scan_value[OF sc]
  show "\<forall>e \<in> set (holdback_queue st). removable (my_timestamp st) e \<noteq> Inl IndexError"
    by blast
  from deliver_removed_ok(2)[OF ok]
  show "\<forall>e \<in> set (released st). slot (length (my_timestamp st)) e < length (my_timestamp st)" .
  from hp assms have "st' = (snd (deliver_removed (released st) st))\<lparr>holdback_queue := kept st\<rparr>"
    by simp
  then show "st' = st\<lparr>my_timestamp :=
                   foldl incr (my_timestamp st) (map (slot (length (my_timestamp st))) (released st)),
                 delivered := delivered st @ map call (released st),
                 holdback_queue := kept st\<rparr>"
    unfolding deliver_removed_ok(1)[OF ok] by simp
qed

section \<open>The scenario of three processes\<close>

text \<open>
  C3. Process 2 has the vector timestamp \<open>[0,0,0]\<close> and holds back \<open>B\<close> from process 1,
  stamped \<open>[1,1,0]\<close>. Once \<open>A\<close> from process 0, stamped \<open>[1,0,0]\<close>, is appended, one call
  of \<^verbatim>\<open>update_holdback_queue\<close> delivers \<open>A\<close>, then \<open>B\<close>, empties the queue and leaves
  the vector timestamp \<open>[1,1,0]\<close>.
\<close>

theorem scenario_A_then_B:
  "update_holdback_queue
     (st\<lparr>my_timestamp := [0, 0, 0],
         holdback_queue := [(1, [1, 1, 0], ''B'')] @ [(0, [1, 0, 0], ''A'')]\<rparr>)
   = (Inr (),
      st\<lparr>my_timestamp := [1, 1, 0], holdback_queue := [],
         delivered := delivered st @ [(0, ''A''), (1, ''B'')]\<rparr>)"
  by (simp add: update_holdback_queue.simps holdback_pass_def should_remove_def
        py_get_def py_index_def deliver_def upt_rec)


section \<open>Passes of \<^verbatim>\<open>update_holdback_queue\<close>\<close>

lemma removable_three:
  "removable V e \<noteq> Inl IndexError \<Longrightarrow> removable V e \<noteq> Inr True \<Longrightarrow> removable V e = Inr False"
proof (cases "removable V e")
  case (Inl err)
  assume "removable V e \<noteq> Inl IndexError"
  with Inl show ?thesis by (cases err) simp
next
  case (Inr b)
  assume "removable V e \<noteq> Inr True"
  with Inr show ?thesis by (cases b) simp_all
qed

lemma holdback_pass_stop:
  assumes "holdback_pass st = (Inr True, st')"
  shows "st' = st" and "\<forall>e \<in> set (holdback_queue st). removable (my_timestamp st) e = Inr False"
proof -
  note ok = holdback_pass_ok[OF assms]
  from ok(2) have none: "released st = []" by simp
  show all: "\<forall>e \<in> set (holdback_queue st). removable (my_timestamp st) e = Inr False"
  proof
    fix e assume e: "e \<in> set (holdback_queue st)"
    with none have "removable (my_timestamp st) e \<noteq> Inr True"
      by (auto simp: released_def filter_empty_conv)
    with ok(3) e show "removable (my_timestamp st) e = Inr False"
      by (intro removable_three) auto
  qed
  then have "kept st = holdback_queue st"
    by (simp add: kept_def filter_id_conv)
  with ok(1) none show "st' = st" by simp
qed

lemma update_holdback_queue_fixed:
  "update_holdback_queue st = (Inr (), st') \<Longrightarrow> holdback_pass st' = (Inr True, st')"
proof (induction st rule: update_holdback_queue.induct)
  case (1 st)
  obtain r st1 where p: "holdback_pass st = (r, st1)" by (cases "holdback_pass st")
  show ?case
  proof (cases r)
    case (Inl e)
    with "1.prems" p show ?thesis by (simp add: update_holdback_queue.simps[of st])
  next
    case (Inr stop)
    show ?thesis
    proof (cases stop)
      case True
      with p Inr "1.prems" have "st1 = st'" by (simp add: update_holdback_queue.simps[of st])
      moreover from holdback_pass_stop(1)[of st st1] p Inr True have "st1 = st" by simp
      ultimately show ?thesis using p Inr True by simp
    next
      case False
      with p Inr "1.prems" have "update_holdback_queue st1 = (Inr (), st')"
        by (simp add: update_holdback_queue.simps[of st])
      with "1.IH"[OF p[symmetric] Inr False] show ?thesis by simp
    qed
  qed
qed

lemma pass_states_bound: "length (pass_states st) \<le> length (holdback_queue st) + 1"
proof (induction st rule: pass_states.induct)
  case (1 st)
  obtain r st1 where p: "holdback_pass st = (r, st1)" by (cases "holdback_pass st")
  show ?case
  proof (cases r)
    case (Inl e)
    with p show ?thesis by (simp add: pass_states.simps[of st])
  next
    case (Inr stop)
    show ?thesis
    proof (cases stop)
      case True
      with p Inr show ?thesis by (simp add: pass_states.simps[of st])
    next
      case False
      from "1.IH"[OF p[symmetric] Inr False]
      have "length (pass_states st1) \<le> length (holdback_queue st1) + 1" .
      moreover from holdback_pass_shrinks[of st st1] p Inr False
      have "length (holdback_queue st1) < length (holdback_queue st)" by simp
      ultimately show ?thesis using p Inr False by (simp add: pass_states.simps[of st])
    qed
  qed
qed


lemma pass_states_hd: "hd (pass_states st) = st" "pass_states st \<noteq> []"
  by (simp_all add: pass_states.simps[of st])

lemma pass_states_stop:
  "holdback_pass st = (Inr True, st') \<Longrightarrow> pass_states st = [st]"
  by (simp add: pass_states.simps[of st])

lemma pass_states_raise:
  "holdback_pass st = (Inl e, st') \<Longrightarrow> pass_states st = [st]"
  by (simp add: pass_states.simps[of st])

lemma pass_states_more:
  "holdback_pass st = (Inr False, st') \<Longrightarrow> pass_states st = st # pass_states st'"
  by (simp add: pass_states.simps[of st])

lemma update_stop:
  "holdback_pass st = (Inr True, st') \<Longrightarrow> update_holdback_queue st = (Inr (), st')"
  by (simp add: update_holdback_queue.simps[of st])

lemma update_raise:
  "holdback_pass st = (Inl e, st') \<Longrightarrow> update_holdback_queue st = (Inl e, st')"
  by (simp add: update_holdback_queue.simps[of st])

lemma update_more:
  "holdback_pass st = (Inr False, st') \<Longrightarrow> update_holdback_queue st = update_holdback_queue st'"
  by (simp add: update_holdback_queue.simps[of st])

lemma holdback_pass_three:
  obtains (raises) e st' where "holdback_pass st = (Inl e, st')"
  | (stops) st' where "holdback_pass st = (Inr True, st')"
  | (goes_on) st' where "holdback_pass st = (Inr False, st')"
proof -
  obtain r st' where p: "holdback_pass st = (r, st')" by (cases "holdback_pass st")
  show ?thesis
  proof (cases r)
    case (Inl e)
    with p show ?thesis by (auto intro: raises)
  next
    case (Inr b)
    with p show ?thesis by (cases b) (auto intro: stops goes_on)
  qed
qed

lemma update_by_passes [consumes 0, case_names raises stops goes_on]:
  assumes "\<And>st e st'. holdback_pass st = (Inl e, st') \<Longrightarrow> P st"
    and "\<And>st st'. holdback_pass st = (Inr True, st') \<Longrightarrow> P st"
    and "\<And>st st'. holdback_pass st = (Inr False, st') \<Longrightarrow> P st' \<Longrightarrow> P st"
  shows "P st"
proof (induction st rule: update_holdback_queue.induct)
  case (1 st)
  show ?case
  proof (cases st rule: holdback_pass_three)
    case (raises e st')
    then show ?thesis by (rule assms(1))
  next
    case (stops st')
    then show ?thesis by (rule assms(2))
  next
    case (goes_on st')
    from "1.IH"[OF goes_on[symmetric] refl] have "P st'" by simp
    with goes_on show ?thesis by (rule assms(3))
  qed
qed


lemma holdback_pass_goes_on:
  assumes "holdback_pass st = (Inr False, st')"
  shows "released st \<noteq> []"
    and "delivered st' = delivered st @ map call (released st)"
    and "holdback_queue st' = kept st"
    and "my_timestamp st' =
      foldl incr (my_timestamp st) (map (slot (length (my_timestamp st))) (released st))"
    and "kept st = filter (\<lambda>e. removable (my_timestamp st) e \<noteq> Inr True) (holdback_queue st)"
proof -
  note ok = holdback_pass_ok[OF assms]
  from ok(2) show "released st \<noteq> []" by simp
  show "delivered st' = delivered st @ map call (released st)"
    by (simp add: ok(1))
  show "holdback_queue st' = kept st"
    by (simp add: ok(1))
  show "my_timestamp st' =
      foldl incr (my_timestamp st) (map (slot (length (my_timestamp st))) (released st))"
    by (simp add: ok(1))
  show "kept st = filter (\<lambda>e. removable (my_timestamp st) e \<noteq> Inr True) (holdback_queue st)"
    unfolding kept_def
  proof (rule filter_cong[OF refl])
    fix e assume "e \<in> set (holdback_queue st)"
    with ok(3) have ne: "removable (my_timestamp st) e \<noteq> Inl IndexError" by blast
    show "(removable (my_timestamp st) e = Inr False) = (removable (my_timestamp st) e \<noteq> Inr True)"
    proof (cases "removable (my_timestamp st) e")
      case (Inl err)
      with ne show ?thesis by (cases err) simp
    next
      case (Inr b)
      then show ?thesis by simp
    qed
  qed
qed

text \<open>
  What one pass that is followed by another has done: it removed and delivered at least
  one entry, and what it left in the queue is a part of what it found.
\<close>

definition progress :: "chat_state \<Rightarrow> chat_state \<Rightarrow> bool" where
  "progress p p' =
     (holdback_pass p = (Inr False, p') \<and> released p \<noteq> [] \<and>
      delivered p' = delivered p @ map call (released p) \<and>
      holdback_queue p' = kept p \<and>
      length (holdback_queue p') < length (holdback_queue p))"

lemma pass_states_progress: "successively progress (pass_states st)"
proof (induction st rule: update_by_passes)
  case (raises st e st')
  then show ?case by (simp add: pass_states_raise)
next
  case (stops st st')
  then show ?case by (simp add: pass_states_stop)
next
  case (goes_on st st')
  have "progress st st'"
    unfolding progress_def
    using goes_on(1) holdback_pass_goes_on(1,2,3)[OF goes_on(1)] holdback_pass_shrinks[OF goes_on(1)]
    by simp
  moreover have "hd (pass_states st') = st'" by (rule pass_states_hd)
  ultimately show ?case
    using goes_on(2) by (simp add: pass_states_more[OF goes_on(1)] successively_Cons)
qed

lemma update_last_pass:
  "update_holdback_queue st =
     (case holdback_pass (last (pass_states st)) of
        (Inl e, s) \<Rightarrow> (Inl e, s) | (Inr stop, s) \<Rightarrow> (Inr (), s)) \<and>
   fst (holdback_pass (last (pass_states st))) \<noteq> Inr False"
proof (induction st rule: update_by_passes)
  case (raises st e st')
  then show ?case by (simp add: pass_states_raise update_raise)
next
  case (stops st st')
  then show ?case by (simp add: pass_states_stop update_stop)
next
  case (goes_on st st')
  then show ?case
    by (simp add: pass_states_more[OF goes_on(1)] update_more[OF goes_on(1)] pass_states_hd)
qed

text \<open>
  C10. \<^verbatim>\<open>update_holdback_queue\<close> terminates on every state: the model is a total
  function, its recursion justified by the length of the holdback queue. A call makes at
  most one pass more than the queue has entries; every pass but the last removes and
  delivers at least one entry and leaves a strictly shorter queue, part of the one it
  found; the last pass is the one whose outcome the call returns (it removed nothing, or
  it raised).
\<close>

theorem update_holdback_queue_passes:
  "length (pass_states st) \<le> length (holdback_queue st) + 1 \<and>
   successively progress (pass_states st) \<and>
   fst (holdback_pass (last (pass_states st))) \<noteq> Inr False \<and>
   update_holdback_queue st =
     (case holdback_pass (last (pass_states st)) of
        (Inl e, s) \<Rightarrow> (Inl e, s) | (Inr stop, s) \<Rightarrow> (Inr (), s))"
  using pass_states_bound[of st] pass_states_progress[of st] update_last_pass[of st] by blast


section \<open>The fixed point\<close>

text \<open>
  When \<^verbatim>\<open>update_holdback_queue\<close> returns, the scan finds nothing to remove among the
  entries left, at the final vector timestamp: for an entry of the data model that is
  the release rule failing. Running the function again on the state it returned changes
  nothing.
\<close>

lemma update_reaches_fixed_point:
  assumes "fst (update_holdback_queue st) = Inr ()"
  shows "(\<forall>e \<in> set (holdback_queue (snd (update_holdback_queue st))).
            removable (my_timestamp (snd (update_holdback_queue st))) e = Inr False \<and>
            (wf_entry (length (my_timestamp (snd (update_holdback_queue st)))) e \<longrightarrow>
               \<not> release_rule (my_timestamp (snd (update_holdback_queue st))) e)) \<and>
         update_holdback_queue (snd (update_holdback_queue st)) =
           (Inr (), snd (update_holdback_queue st))"
proof -
  define st' where "st' = snd (update_holdback_queue st)"
  with assms have "update_holdback_queue st = (Inr (), st')"
    by (cases "update_holdback_queue st") simp
  then have fixed: "holdback_pass st' = (Inr True, st')"
    by (rule update_holdback_queue_fixed)
  have none: "\<forall>e \<in> set (holdback_queue st'). removable (my_timestamp st') e = Inr False"
    using fixed by (rule holdback_pass_stop(2))
  have "\<not> release_rule (my_timestamp st') e"
    if "e \<in> set (holdback_queue st')" "wf_entry (length (my_timestamp st')) e" for e
    using none that removable_wf[of "my_timestamp st'" e] by auto
  with none update_stop[OF fixed] show ?thesis
    unfolding st'_def[symmetric] by blast
qed

section \<open>What a call of \<^verbatim>\<open>update_holdback_queue\<close> releases\<close>

text \<open>The entries the passes of one call remove, in the order of their removal.\<close>

definition releases :: "chat_state \<Rightarrow> entry list" where
  "releases st = concat (map released (pass_states st))"

lemma releases_stop: "holdback_pass st = (Inr True, st') \<Longrightarrow> releases st = []"
  using holdback_pass_ok(2)[of st True st']
  by (simp add: releases_def pass_states_stop)

lemma releases_more:
  "holdback_pass st = (Inr False, st') \<Longrightarrow> releases st = released st @ releases st'"
  by (simp add: releases_def pass_states_more)

lemma pass_states_length_timestamp:
  "\<forall>p \<in> set (pass_states st). length (my_timestamp p) = length (my_timestamp st)"
proof (induction st rule: update_by_passes)
  case (raises st e st')
  then show ?case by (simp add: pass_states_raise)
next
  case (stops st st')
  then show ?case by (simp add: pass_states_stop)
next
  case (goes_on st st')
  from holdback_pass_goes_on(4)[OF goes_on(1)]
  have "length (my_timestamp st') = length (my_timestamp st)" by simp
  with goes_on(2) show ?case
    by (simp add: pass_states_more[OF goes_on(1)])
qed

lemma update_returns_trace:
  "fst (update_holdback_queue st) = Inr () \<longrightarrow>
     delivered (snd (update_holdback_queue st)) = delivered st @ map call (releases st) \<and>
     my_timestamp (snd (update_holdback_queue st)) =
       foldl incr (my_timestamp st) (map (slot (length (my_timestamp st))) (releases st)) \<and>
     holdback_queue (snd (update_holdback_queue st)) =
       filter (\<lambda>e. \<not> list_ex (\<lambda>p. removable (my_timestamp p) e = Inr True) (pass_states st))
         (holdback_queue st)"
proof (induction st rule: update_by_passes)
  case (raises st e st')
  then show ?case by (simp add: update_raise)
next
  case (stops st st')
  have same: "st' = st" using stops by (rule holdback_pass_stop(1))
  have "filter (\<lambda>e. \<not> list_ex (\<lambda>p. removable (my_timestamp p) e = Inr True) [st])
           (holdback_queue st) = holdback_queue st"
    using holdback_pass_stop(2)[OF stops] by (simp add: filter_id_conv)
  then show ?case
    by (simp add: update_stop[OF stops] same releases_stop[OF stops] pass_states_stop[OF stops])
next
  case (goes_on st st')
  note g = holdback_pass_goes_on[OF goes_on(1)]
  show ?case
  proof
    assume "fst (update_holdback_queue st) = Inr ()"
    then have ret: "fst (update_holdback_queue st') = Inr ()"
      by (simp add: update_more[OF goes_on(1)])
    with goes_on(2) have
      d: "delivered (snd (update_holdback_queue st')) = delivered st' @ map call (releases st')"
      and V: "my_timestamp (snd (update_holdback_queue st')) =
       foldl incr (my_timestamp st') (map (slot (length (my_timestamp st'))) (releases st'))"
      and q: "holdback_queue (snd (update_holdback_queue st')) =
       filter (\<lambda>e. \<not> list_ex (\<lambda>p. removable (my_timestamp p) e = Inr True) (pass_states st'))
         (holdback_queue st')"
      by blast+
    have len: "length (my_timestamp st') = length (my_timestamp st)"
      by (simp add: g(4))
    have "delivered (snd (update_holdback_queue st')) = delivered st @ map call (releases st)"
      by (simp add: d g(2) releases_more[OF goes_on(1)])
    moreover have "my_timestamp (snd (update_holdback_queue st')) =
       foldl incr (my_timestamp st) (map (slot (length (my_timestamp st))) (releases st))"
      unfolding V len by (simp add: g(4) releases_more[OF goes_on(1)])
    moreover have "holdback_queue (snd (update_holdback_queue st')) =
       filter (\<lambda>e. \<not> list_ex (\<lambda>p. removable (my_timestamp p) e = Inr True) (pass_states st))
         (holdback_queue st)"
      unfolding q g(3) g(5) by (simp add: pass_states_more[OF goes_on(1)] conj_commute)
    ultimately show "delivered (snd (update_holdback_queue st)) = delivered st @ map call (releases st) \<and>
     my_timestamp (snd (update_holdback_queue st)) =
       foldl incr (my_timestamp st) (map (slot (length (my_timestamp st))) (releases st)) \<and>
     holdback_queue (snd (update_holdback_queue st)) =
       filter (\<lambda>e. \<not> list_ex (\<lambda>p. removable (my_timestamp p) e = Inr True) (pass_states st))
         (holdback_queue st)"
      by (simp add: update_more[OF goes_on(1)])
  qed
qed


section \<open>States of the data model\<close>

lemma wf_engine_entries:
  "wf_engine st \<Longrightarrow> e \<in> set (holdback_queue st) \<Longrightarrow> wf_entry (length (my_timestamp st)) e"
  by (simp add: wf_engine_def list_all_iff)

lemma released_wf:
  assumes "wf_engine st"
  shows "released st = filter (release_rule (my_timestamp st)) (holdback_queue st)"
  unfolding released_def
  by (rule filter_cong[OF refl]) (simp add: removable_wf[OF wf_engine_entries[OF assms]])

lemma holdback_pass_wf_returns:
  assumes "wf_engine st"
  shows "fst (holdback_pass st) = Inr (released st = [])"
proof (cases st rule: holdback_pass_cases)
  case (scan_raises e)
  have "\<forall>e \<in> set (holdback_queue st). removable (my_timestamp st) e \<noteq> Inl IndexError"
    by (simp add: removable_wf[OF wf_engine_entries[OF assms]])
  from scan_total[OF this, of "[]" "[]"] scan_raises(1) show ?thesis by auto
next
  case (deliver_raises e)
  have "list_all (wf_entry (length (my_timestamp st))) (released st)"
    using wf_engine_entries[OF assms] by (auto simp: released_def list_all_iff)
  from deliver_removed_wf[OF this] deliver_raises(2) show ?thesis by simp
next
  case returns
  then show ?thesis by simp
qed

lemma holdback_pass_wf_preserved:
  assumes "wf_engine st" and "holdback_pass st = (Inr stop, st')"
  shows "wf_engine st'"
proof -
  note ok = holdback_pass_ok[OF assms(2)]
  have q: "holdback_queue st' = kept st" and V: "length (my_timestamp st') = length (my_timestamp st)"
    by (simp_all add: ok(1))
  show ?thesis
    unfolding wf_engine_def q V list_all_iff
    using wf_engine_entries[OF assms(1)] by (auto simp: kept_def)
qed

lemma update_wf:
  "wf_engine st \<longrightarrow>
     fst (update_holdback_queue st) = Inr () \<and> (\<forall>p \<in> set (pass_states st). wf_engine p)"
proof (induction st rule: update_by_passes)
  case (raises st e st')
  show ?case
  proof
    assume "wf_engine st"
    from holdback_pass_wf_returns[OF this] raises
    show "fst (update_holdback_queue st) = Inr () \<and> (\<forall>p \<in> set (pass_states st). wf_engine p)"
      by simp
  qed
next
  case (stops st st')
  then show ?case by (simp add: update_stop pass_states_stop)
next
  case (goes_on st st')
  show ?case
  proof
    assume wf: "wf_engine st"
    then have "wf_engine st'" using goes_on(1) by (rule holdback_pass_wf_preserved)
    with goes_on(2) wf
    show "fst (update_holdback_queue st) = Inr () \<and> (\<forall>p \<in> set (pass_states st). wf_engine p)"
      by (simp add: update_more[OF goes_on(1)] pass_states_more[OF goes_on(1)])
  qed
qed

text \<open>The entries of the queue of a state that the release rule lets go.\<close>

definition due :: "chat_state \<Rightarrow> entry list" where
  "due p = filter (release_rule (my_timestamp p)) (holdback_queue p)"

lemma releases_wf:
  assumes "wf_engine st"
  shows "releases st = concat (map due (pass_states st))"
proof -
  have "map released (pass_states st) = map due (pass_states st)"
    using update_wf[of st] assms by (intro map_cong) (auto simp: released_wf due_def)
  then show ?thesis by (simp only: releases_def)
qed

lemma slots_wf:
  assumes "wf_engine st"
  shows "map (slot (length (my_timestamp st))) (releases st) = map (\<lambda>e. nat (fst e)) (releases st)"
    and "\<forall>e \<in> set (releases st). 0 \<le> fst e"
proof -
  have wf: "wf_entry (length (my_timestamp st)) e" if "e \<in> set (releases st)" for e
  proof -
    from that obtain p where p: "p \<in> set (pass_states st)" and e: "e \<in> set (released p)"
      by (auto simp: releases_def)
    from p update_wf[of st] assms have "wf_engine p" by blast
    moreover from e have "e \<in> set (holdback_queue p)" by (simp add: released_def)
    ultimately have "wf_entry (length (my_timestamp p)) e" by (rule wf_engine_entries)
    with pass_states_length_timestamp[of st] p show ?thesis by simp
  qed
  show "map (slot (length (my_timestamp st))) (releases st) = map (\<lambda>e. nat (fst e)) (releases st)"
    by (rule map_cong[OF refl]) (simp add: slot_wf[OF wf])
  show "\<forall>e \<in> set (releases st). 0 \<le> fst e"
    using wf by (auto simp: wf_entry_def)
qed


section \<open>The release rule decides delivery\<close>

text \<open>
  C1. In a state of the data model (every queued entry has a sender in \<open>[0, N)\<close> and a
  timestamp of \<open>N\<close> entries, \<open>N\<close> the length of the vector timestamp) a call of
  \<^verbatim>\<open>update_holdback_queue\<close> returns, and
  \<^item> an entry of the queue is gone afterwards exactly when the release rule held for it
    at the vector timestamp of some pass of the call;
  \<^item> the calls of \<^verbatim>\<open>deliver\<close> made are, pass after pass, \<open>(sender, payload)\<close> of the
    entries of the queue for which the rule holds in that pass;
  \<^item> each of these deliveries is one increment by 1 of the sender's entry of the vector
    timestamp, so an entry of the vector grows by the number of deliveries from that
    sender.
\<close>

theorem release_rule_decides_delivery:
  assumes "wf_engine st"
  shows "fst (update_holdback_queue st) = Inr () \<and>
    holdback_queue (snd (update_holdback_queue st)) =
      filter (\<lambda>e. \<not> list_ex (\<lambda>p. release_rule (my_timestamp p) e) (pass_states st))
        (holdback_queue st) \<and>
    delivered (snd (update_holdback_queue st)) =
      delivered st @ map call (concat (map due (pass_states st))) \<and>
    my_timestamp (snd (update_holdback_queue st)) =
      foldl incr (my_timestamp st) (map (\<lambda>e. nat (fst e)) (concat (map due (pass_states st)))) \<and>
    (\<forall>k < length (my_timestamp st).
       my_timestamp (snd (update_holdback_queue st)) ! k =
         my_timestamp st ! k +
         int (length (filter (\<lambda>e. fst e = int k) (concat (map due (pass_states st))))))"
proof -
  let ?st' = "snd (update_holdback_queue st)" and ?V = "my_timestamp st"
  let ?R = "concat (map due (pass_states st))"
  have ret: "fst (update_holdback_queue st) = Inr ()"
    using update_wf[of st] assms by blast
  note tr = update_returns_trace[of st, rule_format, OF ret]
  have R: "releases st = ?R"
    using assms by (rule releases_wf)
  have d: "delivered ?st' = delivered st @ map call ?R"
    using tr R by simp
  from tr have "my_timestamp ?st' = foldl incr ?V (map (slot (length ?V)) (releases st))"
    by blast
  then have "my_timestamp ?st' = foldl incr ?V (map (\<lambda>e. nat (fst e)) (releases st))"
    by (simp only: slots_wf(1)[OF assms])
  then have V: "my_timestamp ?st' = foldl incr ?V (map (\<lambda>e. nat (fst e)) ?R)"
    by (simp only: R)
  have q: "holdback_queue ?st' =
      filter (\<lambda>e. \<not> list_ex (\<lambda>p. release_rule (my_timestamp p) e) (pass_states st))
        (holdback_queue st)"
  proof -
    have "filter (\<lambda>e. \<not> list_ex (\<lambda>p. removable (my_timestamp p) e = Inr True) (pass_states st))
            (holdback_queue st) =
          filter (\<lambda>e. \<not> list_ex (\<lambda>p. release_rule (my_timestamp p) e) (pass_states st))
            (holdback_queue st)"
    proof (rule filter_cong[OF refl])
      fix e assume "e \<in> set (holdback_queue st)"
      with assms have wf: "wf_entry (length ?V) e" by (rule wf_engine_entries)
      have "removable (my_timestamp p) e = Inr (release_rule (my_timestamp p) e)"
        if "p \<in> set (pass_states st)" for p
        using that pass_states_length_timestamp[of st] wf by (intro removable_wf) simp
      then show "(\<not> list_ex (\<lambda>p. removable (my_timestamp p) e = Inr True) (pass_states st)) =
            (\<not> list_ex (\<lambda>p. release_rule (my_timestamp p) e) (pass_states st))"
        by (simp add: list_ex_iff)
    qed
    with tr show ?thesis by simp
  qed
  have n: "my_timestamp ?st' ! k =
         ?V ! k + int (length (filter (\<lambda>e. fst e = int k) ?R))" if "k < length ?V" for k
  proof -
    have "filter (\<lambda>j. j = k) (map (\<lambda>e. nat (fst e)) ?R) =
        map (\<lambda>e. nat (fst e)) (filter (\<lambda>e. fst e = int k) ?R)"
      unfolding filter_map comp_def
    proof (rule arg_cong[where f = "map (\<lambda>e. nat (fst e))"], rule filter_cong[OF refl])
      fix e assume "e \<in> set ?R"
      moreover from slots_wf(2)[OF assms] have "\<forall>e \<in> set ?R. 0 \<le> fst e"
        by (simp only: R)
      ultimately have "0 \<le> fst e" by blast
      then show "(nat (fst e) = k) = (fst e = int k)" by auto
    qed
    then have "length (filter (\<lambda>j. j = k) (map (\<lambda>e. nat (fst e)) ?R)) =
        length (filter (\<lambda>e. fst e = int k) ?R)"
      by simp
    with foldl_incr_nth[OF that, of "map (\<lambda>e. nat (fst e)) ?R"] show ?thesis
      unfolding V by simp
  qed
  from ret q d V n show ?thesis by blast
qed

theorem release_rule_decides_delivery_witness:
  "wf_engine ((init 2 0 0 3)\<lparr>holdback_queue := [(1, [1, 1, 0], ''B''), (0, [1, 0, 0], ''A'')]\<rparr>) \<and>
   fst (update_holdback_queue
     ((init 2 0 0 3)\<lparr>holdback_queue := [(1, [1, 1, 0], ''B''), (0, [1, 0, 0], ''A'')]\<rparr>)) = Inr () \<and>
   my_timestamp (snd (update_holdback_queue
     ((init 2 0 0 3)\<lparr>holdback_queue := [(1, [1, 1, 0], ''B''), (0, [1, 0, 0], ''A'')]\<rparr>))) ! 1 =
     0 + int (length (filter (\<lambda>e. fst e = 1)
       (concat (map due (pass_states
         ((init 2 0 0 3)\<lparr>holdback_queue := [(1, [1, 1, 0], ''B''), (0, [1, 0, 0], ''A'')]\<rparr>))))))"
proof -
  let ?s = "(init 2 0 0 3)\<lparr>holdback_queue := [(1, [1, 1, 0], ''B''), (0, [1, 0, 0], ''A'')]\<rparr>"
  have V: "my_timestamp ?s = [0, 0, 0]"
    by (simp add: init_def numeral_3_eq_3)
  have wf: "wf_engine ?s"
    by (simp add: wf_engine_def wf_entry_def V)
  note t = release_rule_decides_delivery[OF wf]
  have k: "(1::nat) < length (my_timestamp ?s)"
    by (simp only: V) simp
  have z: "my_timestamp ?s ! 1 = 0"
    by (simp only: V) simp
  note ret = t[THEN conjunct1]
  note inc = t[THEN conjunct2, THEN conjunct2, THEN conjunct2, THEN conjunct2, rule_format, OF k]
  from inc have final: "my_timestamp (snd (update_holdback_queue ?s)) ! 1 =
         0 + int (length (filter (\<lambda>e. fst e = 1) (concat (map due (pass_states ?s)))))"
    by (simp only: z of_nat_1)
  show ?thesis
    by (rule conjI[OF wf conjI[OF ret final]])
qed


section \<open>\<^verbatim>\<open>main.py\<close>: receiving and retransmitting\<close>

lemma py_get_in_range: "i < length xs \<Longrightarrow> py_get xs (int i) = Inr (xs ! i)"
  by (simp add: py_get_def py_index_def)

lemma main_unicast_send_data:
  assumes "i < length (main_hosts cfg)"
  shows "fst (main_unicast_send cfg r (int i) message False a st) = Inr ()"
    and "main_has_acknowledged (snd (main_unicast_send cfg r (int i) message False a st)) =
           main_has_acknowledged st"
    and "main_unack_messages (snd (main_unicast_send cfg r (int i) message False a st)) =
           main_unack_messages st @ [(my_ID st, message_id st + 1, message)]"
    and "message_id (snd (main_unicast_send cfg r (int i) message False a st)) = message_id st + 1"
    and "my_ID (snd (main_unicast_send cfg r (int i) message False a st)) = my_ID st"
  using assms
  by (simp_all add: main_unicast_send_def py_get_in_range Let_def split: prod.splits)

lemma main_multicast_loop_grows:
  "\<forall>i \<in> set ids. i < length (main_hosts cfg) \<Longrightarrow>
   fst (main_multicast_loop cfg rs ids message st) = Inr () \<and>
   main_has_acknowledged (snd (main_multicast_loop cfg rs ids message st)) =
     main_has_acknowledged st \<and>
   length (main_unack_messages (snd (main_multicast_loop cfg rs ids message st))) =
     length (main_unack_messages st) + length ids"
proof (induction ids arbitrary: st)
  case Nil
  then show ?case by simp
next
  case (Cons i ids)
  then have i: "i < length (main_hosts cfg)" by simp
  obtain x st1 where s: "main_unicast_send cfg (rs i) (int i) message False 0 st = (x, st1)"
    by (cases "main_unicast_send cfg (rs i) (int i) message False 0 st")
  from main_unicast_send_data(1,2,3)[OF i, of "rs i" message 0 st] s
  have x: "x = Inr ()" and a: "main_has_acknowledged st1 = main_has_acknowledged st"
    and u: "length (main_unack_messages st1) = length (main_unack_messages st) + 1"
    by simp_all
  from Cons.prems have "\<forall>i \<in> set ids. i < length (main_hosts cfg)" by simp
  from Cons.IH[OF this, of st1] show ?case
    by (simp add: s x a u)
qed

lemma main_multicast_grows:
  "fst (main_multicast cfg rs message st) = Inr () \<and>
   main_has_acknowledged (snd (main_multicast cfg rs message st)) = main_has_acknowledged st \<and>
   length (main_unack_messages (snd (main_multicast cfg rs message st))) =
     length (main_unack_messages st) + length (main_hosts cfg)"
  using main_multicast_loop_grows[of "[0..<length (main_hosts cfg)]" cfg rs message st]
  by (simp add: main_multicast_def)

lemma main_process_ack_loop_never_ends:
  "main_has_acknowledged st = {} \<Longrightarrow> main_hosts cfg \<noteq> [] \<Longrightarrow>
   i < length (main_unack_messages st) \<Longrightarrow>
   main_process_ack_loop fuel cfg rs i new st = None"
proof (induction fuel arbitrary: i new st)
  case 0
  then show ?case by simp
next
  case (Suc fuel)
  obtain dest_id mid message where e: "main_unack_messages st ! i = (dest_id, mid, message)"
    by (cases "main_unack_messages st ! i")
  obtain x st1 where m: "main_multicast cfg (rs i) message st = (x, st1)"
    by (cases "main_multicast cfg (rs i) message st")
  from main_multicast_grows[of cfg "rs i" message st] m
  have x: "x = Inr ()" and a: "main_has_acknowledged st1 = main_has_acknowledged st"
    and u: "length (main_unack_messages st1) =
      length (main_unack_messages st) + length (main_hosts cfg)"
    by simp_all
  have "Suc i < length (main_unack_messages st1)"
    using Suc.prems(2,3) u by (cases "main_hosts cfg") simp_all
  from Suc.IH[OF _ Suc.prems(2) this, of "new @ [(dest_id, mid, message)]"] a Suc.prems(1)
  have "main_process_ack_loop fuel cfg rs (Suc i) (new @ [(dest_id, mid, message)]) st1 = None"
    by simp
  with Suc.prems show ?case
    by (simp add: e m x)
qed


text \<open>
  C5, on \<^verbatim>\<open>main.py\<close>. Process 0 of two has received nothing yet. The data message
  \<open>(1, 1, ''hi'')\<close> arrives for the first time: \<^verbatim>\<open>Main.unicast_receive\<close> acknowledges it
  and returns \<^verbatim>\<open>(1, None)\<close>, so that the caller prints nothing, and it does not record
  the pair \<open>(1, 1)\<close>; the same happens when the message arrives again. The membership
  test is the wrong way round: \<^verbatim>\<open>ChatProcess.unicast_receive\<close> tests \<^verbatim>\<open>not in\<close>.
\<close>

theorem main_unicast_receive_new_message_suppressed:
  "main_unicast_receive
     \<lparr>main_hosts = [(''h0'', 5000), (''h1'', 5001)], main_pack = pk\<rparr> (3/4)
     (1, 1, False, ''hi'')
     \<lparr>my_ID = 0, message_id = 0, main_has_received = {}, main_has_acknowledged = {},
      main_unack_messages = [], main_drop_rate = 1/2, main_wire = []\<rparr>
   = (Inr (1, None),
      \<lparr>my_ID = 0, message_id = 0, main_has_received = {}, main_has_acknowledged = {},
       main_unack_messages = [], main_drop_rate = 1/2,
       main_wire = [(pk (0, 1, True, []), ''h1'', 5001)]\<rparr>) \<and>
   main_unicast_receive
     \<lparr>main_hosts = [(''h0'', 5000), (''h1'', 5001)], main_pack = pk\<rparr> (3/4)
     (1, 1, False, ''hi'')
     \<lparr>my_ID = 0, message_id = 0, main_has_received = {}, main_has_acknowledged = {},
      main_unack_messages = [], main_drop_rate = 1/2,
      main_wire = [(pk (0, 1, True, []), ''h1'', 5001)]\<rparr>
   = (Inr (1, None),
      \<lparr>my_ID = 0, message_id = 0, main_has_received = {}, main_has_acknowledged = {},
       main_unack_messages = [], main_drop_rate = 1/2,
       main_wire = [(pk (0, 1, True, []), ''h1'', 5001), (pk (0, 1, True, []), ''h1'', 5001)]\<rparr>)"
  by (simp add: main_unicast_receive_def main_unicast_send_def py_get_def py_index_def)

text \<open>
  The retransmission loop of \<^verbatim>\<open>main.py\<close>, \<^verbatim>\<open>Main.process_ack\<close>, is started by no
  thread of \<^verbatim>\<open>Main.run\<close>. Were it run: process 0 of two has multicast \<open>''hi''\<close> and
  both packets were dropped, so the list of unacknowledged sends holds the ids 1 and 2.
  \<^verbatim>\<open>Main.process_ack\<close> finds the first entry unacknowledged and calls
  \<^verbatim>\<open>multicast\<close>: the message goes to both hosts again, under the new ids 3 and 4, and
  two more entries join the list that the loop is running over. The loop then never
  reaches the end of the list: whatever the number of iterations allowed, the scan does
  not finish.
\<close>

lemma main_process_ack_resends_under_new_ids:
  "main_multicast \<lparr>main_hosts = [(''h0'', 5000), (''h1'', 5001)], main_pack = pk\<rparr> (\<lambda>i. 0) ''hi''
     \<lparr>my_ID = 0, message_id = 0, main_has_received = {}, main_has_acknowledged = {},
      main_unack_messages = [], main_drop_rate = 1/2, main_wire = []\<rparr>
   = (Inr (),
      \<lparr>my_ID = 0, message_id = 2, main_has_received = {}, main_has_acknowledged = {},
       main_unack_messages = [(0, 1, ''hi''), (0, 2, ''hi'')], main_drop_rate = 1/2,
       main_wire = []\<rparr>) \<and>
   main_multicast \<lparr>main_hosts = [(''h0'', 5000), (''h1'', 5001)], main_pack = pk\<rparr> (\<lambda>i. 3/4) ''hi''
     \<lparr>my_ID = 0, message_id = 2, main_has_received = {}, main_has_acknowledged = {},
      main_unack_messages = [(0, 1, ''hi''), (0, 2, ''hi'')], main_drop_rate = 1/2,
      main_wire = []\<rparr>
   = (Inr (),
      \<lparr>my_ID = 0, message_id = 4, main_has_received = {}, main_has_acknowledged = {},
       main_unack_messages = [(0, 1, ''hi''), (0, 2, ''hi''), (0, 3, ''hi''), (0, 4, ''hi'')],
       main_drop_rate = 1/2,
       main_wire = [(pk (0, 3, False, ''hi''), ''h0'', 5000),
                    (pk (0, 4, False, ''hi''), ''h1'', 5001)]\<rparr>) \<and>
   (\<forall>fuel. main_process_ack fuel
      \<lparr>main_hosts = [(''h0'', 5000), (''h1'', 5001)], main_pack = pk\<rparr> (\<lambda>i j. 3/4)
      \<lparr>my_ID = 0, message_id = 2, main_has_received = {}, main_has_acknowledged = {},
       main_unack_messages = [(0, 1, ''hi''), (0, 2, ''hi'')], main_drop_rate = 1/2,
       main_wire = []\<rparr> = None)"
proof (intro conjI allI)
  show "main_multicast \<lparr>main_hosts = [(''h0'', 5000), (''h1'', 5001)], main_pack = pk\<rparr> (\<lambda>i. 0) ''hi''
     \<lparr>my_ID = 0, message_id = 0, main_has_received = {}, main_has_acknowledged = {},
      main_unack_messages = [], main_drop_rate = 1/2, main_wire = []\<rparr>
   = (Inr (),
      \<lparr>my_ID = 0, message_id = 2, main_has_received = {}, main_has_acknowledged = {},
       main_unack_messages = [(0, 1, ''hi''), (0, 2, ''hi'')], main_drop_rate = 1/2,
       main_wire = []\<rparr>)"
    by (simp add: main_multicast_def main_unicast_send_def py_get_def py_index_def upt_rec)
  show "main_multicast \<lparr>main_hosts = [(''h0'', 5000), (''h1'', 5001)], main_pack = pk\<rparr> (\<lambda>i. 3/4) ''hi''
     \<lparr>my_ID = 0, message_id = 2, main_has_received = {}, main_has_acknowledged = {},
      main_unack_messages = [(0, 1, ''hi''), (0, 2, ''hi'')], main_drop_rate = 1/2,
      main_wire = []\<rparr>
   = (Inr (),
      \<lparr>my_ID = 0, message_id = 4, main_has_received = {}, main_has_acknowledged = {},
       main_unack_messages = [(0, 1, ''hi''), (0, 2, ''hi''), (0, 3, ''hi''), (0, 4, ''hi'')],
       main_drop_rate = 1/2,
       main_wire = [(pk (0, 3, False, ''hi''), ''h0'', 5000),
                    (pk (0, 4, False, ''hi''), ''h1'', 5001)]\<rparr>)"
    by (simp add: main_multicast_def main_unicast_send_def py_get_def py_index_def upt_rec)
  fix fuel
  have "main_process_ack_loop fuel
      \<lparr>main_hosts = [(''h0'', 5000), (''h1'', 5001)], main_pack = pk\<rparr> (\<lambda>i j. 3/4) 0 []
      \<lparr>my_ID = 0, message_id = 2, main_has_received = {}, main_has_acknowledged = {},
       main_unack_messages = [(0, 1, ''hi''), (0, 2, ''hi'')], main_drop_rate = 1/2,
       main_wire = []\<rparr> = None"
    by (rule main_process_ack_loop_never_ends) simp_all
  then show "main_process_ack fuel
      \<lparr>main_hosts = [(''h0'', 5000), (''h1'', 5001)], main_pack = pk\<rparr> (\<lambda>i j. 3/4)
      \<lparr>my_ID = 0, message_id = 2, main_has_received = {}, main_has_acknowledged = {},
       main_unack_messages = [(0, 1, ''hi''), (0, 2, ''hi'')], main_drop_rate = 1/2,
       main_wire = []\<rparr> = None"
    by (simp only: main_process_ack_def option.case)
qed


section \<open>A call releases whole causal chains, in causal order\<close>

text \<open>
  By the vector timestamps, entry \<open>a\<close> was sent before entry \<open>b\<close>: the sender of \<open>b\<close>
  had seen the message \<open>a\<close> of another sender, or \<open>b\<close> is a later message of the sender
  of \<open>a\<close>.
\<close>

definition sent_before :: "entry \<Rightarrow> entry \<Rightarrow> bool" where
  "sent_before a b =
     (case a of (s, T, m) \<Rightarrow> case b of (s', T', m') \<Rightarrow>
        if s = s' then T ! nat s < T' ! nat s else T ! nat s \<le> T' ! nat s)"

lemma update_returns_mset:
  "fst (update_holdback_queue st) = Inr () \<longrightarrow>
     mset (holdback_queue st) =
       mset (holdback_queue (snd (update_holdback_queue st))) + mset (releases st)"
proof (induction st rule: update_by_passes)
  case (raises st e st')
  then show ?case by (simp add: update_raise)
next
  case (stops st st')
  have same: "st' = st" using stops by (rule holdback_pass_stop(1))
  show ?case
    by (simp add: update_stop[OF stops] same releases_stop[OF stops])
next
  case (goes_on st st')
  note g = holdback_pass_goes_on[OF goes_on(1)]
  have part: "mset (holdback_queue st) = mset (kept st) + mset (released st)"
    unfolding g(5) released_def by (simp add: union_commute)
  show ?case
  proof
    assume "fst (update_holdback_queue st) = Inr ()"
    then have "fst (update_holdback_queue st') = Inr ()"
      by (simp add: update_more[OF goes_on(1)])
    with goes_on(2) have "mset (holdback_queue st') =
       mset (holdback_queue (snd (update_holdback_queue st'))) + mset (releases st')"
      by blast
    then show "mset (holdback_queue st) =
       mset (holdback_queue (snd (update_holdback_queue st))) + mset (releases st)"
      by (simp add: part g(3)[symmetric] update_more[OF goes_on(1)] releases_more[OF goes_on(1)])
  qed
qed

lemma foldl_incr_mono: "k < length V \<Longrightarrow> V ! k \<le> foldl incr V ks ! k"
  by (simp add: foldl_incr_nth)

lemma pass_states_timestamp_mono:
  "\<forall>p \<in> set (pass_states st). \<forall>k < length (my_timestamp st).
      my_timestamp st ! k \<le> my_timestamp p ! k"
proof (induction st rule: update_by_passes)
  case (raises st e st')
  then show ?case by (simp add: pass_states_raise)
next
  case (stops st st')
  then show ?case by (simp add: pass_states_stop)
next
  case (goes_on st st')
  note g = holdback_pass_goes_on[OF goes_on(1)]
  have len: "length (my_timestamp st') = length (my_timestamp st)"
    by (simp add: g(4))
  have first: "my_timestamp st ! k \<le> my_timestamp st' ! k" if "k < length (my_timestamp st)" for k
    unfolding g(4) using that by (rule foldl_incr_mono)
  show ?case
  proof (intro ballI allI impI)
    fix p k assume p: "p \<in> set (pass_states st)" and k: "k < length (my_timestamp st)"
    from p have "p = st \<or> p \<in> set (pass_states st')"
      by (simp add: pass_states_more[OF goes_on(1)])
    then show "my_timestamp st ! k \<le> my_timestamp p ! k"
    proof
      assume "p = st"
      then show ?thesis by simp
    next
      assume "p \<in> set (pass_states st')"
      with goes_on(2) k len have "my_timestamp st' ! k \<le> my_timestamp p ! k" by simp
      with first[OF k] show ?thesis by simp
    qed
  qed
qed


lemma later_release_not_sent_before:
  assumes x: "wf_entry (length V) x" "release_rule V x"
    and y: "wf_entry (length V) y" "release_rule V' y"
    and mono: "\<forall>k < length V. V ! k \<le> V' ! k"
  shows "\<not> sent_before y x"
proof -
  obtain s T m where xe: "x = (s, T, m)" by (cases x)
  obtain s' T' m' where ye: "y = (s', T', m')" by (cases y)
  from x(1) have s: "0 \<le> s" "nat s < length V" and T: "length T = length V"
    by (auto simp: xe wf_entry_def)
  from y(1) have s': "0 \<le> s'" "nat s' < length V" and T': "length T' = length V"
    by (auto simp: ye wf_entry_def)
  from y(2) have next_y: "T' ! nat s' = V' ! nat s' + 1"
    by (simp add: ye release_rule_def)
  from mono s' have up: "V ! nat s' \<le> V' ! nat s'" by simp
  show ?thesis
  proof (cases "s' = s")
    case True
    from x(2) have "T ! nat s = V ! nat s + 1"
      by (simp add: xe release_rule_def)
    with next_y up True show ?thesis
      by (simp add: sent_before_def xe ye)
  next
    case False
    have "nat s' \<in> {0..<length T}" "int (nat s') \<noteq> s"
      using s' T False by simp_all
    with x(2) have "T ! nat s' \<le> V ! nat s'"
      unfolding xe release_rule_def by simp
    with next_y up False show ?thesis
      by (simp add: sent_before_def xe ye)
  qed
qed

lemma sorted_wrt_all_pairs: "(\<forall>x \<in> set xs. \<forall>y \<in> set xs. R x y) \<Longrightarrow> sorted_wrt R xs"
  by (induction xs) auto

lemma released_entries_wf:
  assumes "wf_engine st" "x \<in> set (released st)"
  shows "wf_entry (length (my_timestamp st)) x" "release_rule (my_timestamp st) x"
proof -
  from assms(2) have "x \<in> set (holdback_queue st)" "release_rule (my_timestamp st) x"
    by (simp_all add: released_wf[OF assms(1)])
  then show "wf_entry (length (my_timestamp st)) x" "release_rule (my_timestamp st) x"
    using wf_engine_entries[OF assms(1)] by simp_all
qed

lemma releases_origin:
  assumes "wf_engine st" "y \<in> set (releases st)"
  shows "\<exists>q \<in> set (pass_states st). wf_entry (length (my_timestamp st)) y \<and>
           release_rule (my_timestamp q) y \<and>
           (\<forall>k < length (my_timestamp st). my_timestamp st ! k \<le> my_timestamp q ! k)"
proof -
  from assms(2) obtain q where q: "q \<in> set (pass_states st)" and y: "y \<in> set (released q)"
    by (auto simp: releases_def)
  from q update_wf[of st] assms(1) have wfq: "wf_engine q" by blast
  from pass_states_length_timestamp[of st] q
  have len: "length (my_timestamp q) = length (my_timestamp st)" by simp
  from released_entries_wf[OF wfq y] len
  have "wf_entry (length (my_timestamp st)) y" "release_rule (my_timestamp q) y" by simp_all
  with pass_states_timestamp_mono[of st] q show ?thesis by blast
qed

lemma releases_in_causal_order:
  "wf_engine st \<longrightarrow> sorted_wrt (\<lambda>x y. \<not> sent_before y x) (releases st)"
proof (induction st rule: update_by_passes)
  case (raises st e st')
  show ?case
  proof
    assume "wf_engine st"
    from holdback_pass_wf_returns[OF this] raises
    show "sorted_wrt (\<lambda>x y. \<not> sent_before y x) (releases st)" by simp
  qed
next
  case (stops st st')
  then show ?case by (simp add: releases_stop)
next
  case (goes_on st st')
  note g = holdback_pass_goes_on[OF goes_on(1)]
  show ?case
  proof
    assume wf: "wf_engine st"
    then have wf': "wf_engine st'" using goes_on(1) by (rule holdback_pass_wf_preserved)
    have len: "length (my_timestamp st') = length (my_timestamp st)"
      by (simp add: g(4))
    have step: "my_timestamp st ! k \<le> my_timestamp st' ! k" if "k < length (my_timestamp st)" for k
      unfolding g(4) using that by (rule foldl_incr_mono)
    have same_pass: "sorted_wrt (\<lambda>x y. \<not> sent_before y x) (released st)"
    proof (rule sorted_wrt_all_pairs, intro ballI)
      fix x y assume "x \<in> set (released st)" "y \<in> set (released st)"
      then show "\<not> sent_before y x"
        using released_entries_wf[OF wf]
        by (intro later_release_not_sent_before[of "my_timestamp st" x y "my_timestamp st"]) simp_all
    qed
    have later: "\<not> sent_before y x" if x: "x \<in> set (released st)" and y: "y \<in> set (releases st')" for x y
    proof -
      from releases_origin[OF wf' y, unfolded len] obtain q :: chat_state where
        q: "wf_entry (length (my_timestamp st)) y" "release_rule (my_timestamp q) y"
          "\<forall>k < length (my_timestamp st). my_timestamp st' ! k \<le> my_timestamp q ! k"
        by blast
      have "\<forall>k < length (my_timestamp st). my_timestamp st ! k \<le> my_timestamp q ! k"
      proof (intro allI impI)
        fix k assume k: "k < length (my_timestamp st)"
        with q(3) have "my_timestamp st' ! k \<le> my_timestamp q ! k" by simp
        with step[OF k] show "my_timestamp st ! k \<le> my_timestamp q ! k" by simp
      qed
      with released_entries_wf[OF wf x] q(1,2) show ?thesis
        by (intro later_release_not_sent_before[of "my_timestamp st" x y "my_timestamp q"])
    qed
    from goes_on(2) wf' have "sorted_wrt (\<lambda>x y. \<not> sent_before y x) (releases st')" by blast
    with same_pass later show "sorted_wrt (\<lambda>x y. \<not> sent_before y x) (releases st)"
      by (simp add: releases_more[OF goes_on(1)] sorted_wrt_append)
  qed
qed


text \<open>
  C2. When \<^verbatim>\<open>update_holdback_queue\<close> returns, the computation has reached its fixed
  point in this one call:
  \<^item> for no entry left in the queue does the scan decide removal at the final vector
    timestamp (for an entry of the data model: the release rule fails), and a second call
    on the state returned changes nothing;
  \<^item> every entry of the queue is either left or among the entries released, which were
    all delivered, in the order of their release, each with its increment of the vector
    timestamp;
  \<^item> in a state of the data model the entries were released in causal order: no entry
    was released after one that, by the timestamps, was sent after it; and the released
    entries are, pass after pass, those for which the release rule holds.
\<close>

theorem update_holdback_queue_fixed_point:
  assumes "fst (update_holdback_queue st) = Inr ()"
  shows "(\<forall>e \<in> set (holdback_queue (snd (update_holdback_queue st))).
            removable (my_timestamp (snd (update_holdback_queue st))) e = Inr False \<and>
            (wf_entry (length (my_timestamp (snd (update_holdback_queue st)))) e \<longrightarrow>
               \<not> release_rule (my_timestamp (snd (update_holdback_queue st))) e)) \<and>
         update_holdback_queue (snd (update_holdback_queue st)) =
           (Inr (), snd (update_holdback_queue st)) \<and>
         mset (holdback_queue st) =
           mset (holdback_queue (snd (update_holdback_queue st))) + mset (releases st) \<and>
         delivered (snd (update_holdback_queue st)) = delivered st @ map call (releases st) \<and>
         my_timestamp (snd (update_holdback_queue st)) =
           foldl incr (my_timestamp st) (map (slot (length (my_timestamp st))) (releases st)) \<and>
         (wf_engine st \<longrightarrow>
            sorted_wrt (\<lambda>x y. \<not> sent_before y x) (releases st) \<and>
            releases st = concat (map due (pass_states st)))"
proof -
  note fp = update_reaches_fixed_point[OF assms]
  note tr = update_returns_trace[of st, rule_format, OF assms]
  note ms = update_returns_mset[of st, rule_format, OF assms]
  have "wf_engine st \<longrightarrow>
            sorted_wrt (\<lambda>x y. \<not> sent_before y x) (releases st) \<and>
            releases st = concat (map due (pass_states st))"
    using releases_in_causal_order[of st] releases_wf[of st] by blast
  with fp tr ms show ?thesis by blast
qed

theorem update_holdback_queue_fixed_point_witness:
  "fst (update_holdback_queue
     ((init 2 0 0 3)\<lparr>holdback_queue := [(1, [1, 1, 0], ''B''), (0, [1, 0, 0], ''A'')]\<rparr>)) = Inr () \<and>
   wf_engine ((init 2 0 0 3)\<lparr>holdback_queue := [(1, [1, 1, 0], ''B''), (0, [1, 0, 0], ''A'')]\<rparr>) \<and>
   releases ((init 2 0 0 3)\<lparr>holdback_queue := [(1, [1, 1, 0], ''B''), (0, [1, 0, 0], ''A'')]\<rparr>) =
     [(0, [1, 0, 0], ''A''), (1, [1, 1, 0], ''B'')] \<and>
   holdback_queue (snd (update_holdback_queue
     ((init 2 0 0 3)\<lparr>holdback_queue := [(1, [1, 1, 0], ''B''), (0, [1, 0, 0], ''A'')]\<rparr>))) = [] \<and>
   delivered (snd (update_holdback_queue
     ((init 2 0 0 3)\<lparr>holdback_queue := [(1, [1, 1, 0], ''B''), (0, [1, 0, 0], ''A'')]\<rparr>))) =
     [(0, ''A''), (1, ''B'')] \<and>
   my_timestamp (snd (update_holdback_queue
     ((init 2 0 0 3)\<lparr>holdback_queue := [(1, [1, 1, 0], ''B''), (0, [1, 0, 0], ''A'')]\<rparr>))) =
     [1, 1, 0] \<and>
   sorted_wrt (\<lambda>x y. \<not> sent_before y x) [(0, [1, 0, 0], ''A''), (1, [1, 1, 0], ''B'')]"
proof -
  let ?A = "(0::int, [1::int, 0, 0], ''A'')" and ?B = "(1::int, [1::int, 1, 0], ''B'')"
  let ?s = "(init 2 0 0 3)\<lparr>holdback_queue := [?B, ?A]\<rparr>"
  have V: "my_timestamp ?s = [0, 0, 0]" and D: "delivered ?s = []"
    by (simp_all add: init_def numeral_3_eq_3)
  have wf: "wf_engine ?s"
    by (simp add: wf_engine_def wf_entry_def V)
  have ev: "update_holdback_queue ?s =
      (Inr (), ?s\<lparr>my_timestamp := [1, 1, 0], holdback_queue := [],
                   delivered := [(0, ''A''), (1, ''B'')]\<rparr>)"
    by (simp add: update_holdback_queue.simps holdback_pass_def should_remove_def
        py_get_def py_index_def deliver_def upt_rec init_def numeral_3_eq_3)
  have rel: "releases ?s = [?A, ?B]"
    by (simp add: releases_def pass_states.simps released_def removable_def holdback_pass_def
        should_remove_def py_get_def py_index_def deliver_def upt_rec init_def numeral_3_eq_3)
  have ret: "fst (update_holdback_queue ?s) = Inr ()"
    by (simp only: ev fst_conv)
  note t = update_holdback_queue_fixed_point[OF ret]
  from t have "delivered (snd (update_holdback_queue ?s)) = delivered ?s @ map call (releases ?s)"
    by blast
  then have d: "delivered (snd (update_holdback_queue ?s)) = [(0, ''A''), (1, ''B'')]"
    by (simp only: rel D) simp
  from t wf have "sorted_wrt (\<lambda>x y. \<not> sent_before y x) (releases ?s)"
    by blast
  then have so: "sorted_wrt (\<lambda>x y. \<not> sent_before y x) [?A, ?B]"
    by (simp only: rel)
  have q: "holdback_queue (snd (update_holdback_queue ?s)) = []"
    and v: "my_timestamp (snd (update_holdback_queue ?s)) = [1, 1, 0]"
    by (simp_all add: ev)
  from ret wf rel q d v so show ?thesis
    by (intro conjI)
qed


section \<open>What a call of \<^verbatim>\<open>unicast_send\<close> does\<close>

text \<open>The element a call puts on the priority queue when it does not drop the packet.\<close>

definition queued_packet ::
  "config \<Rightarrow> draw \<Rightarrow> chat_state \<Rightarrow> fields \<Rightarrow> string \<times> int \<Rightarrow> queued" where
  "queued_packet cfg d st fs host =
     (rnd cfg (clock d + uniform (rnd cfg) 0 (rnd cfg (2 * delay_time st)) (delay_draw d)),
      pack cfg fs, fst host, snd host)"

text \<open>
  A call that passes a message id, or sends an acknowledgement, records nothing: it
  drops the packet, raises on an unknown destination, or queues the packet.
\<close>

lemma unicast_send_given_id:
  assumes "is_ack \<or> msg_id \<noteq> None"
  shows "unicast_send cfg d destination message msg_id is_ack timestamp st =
    (if drop_draw d \<le> drop_rate st then (Inr (), st)
     else case py_get (hosts cfg) destination of
       Inl e \<Rightarrow> (Inl e, st)
     | Inr host \<Rightarrow>
         (Inr (), st\<lparr>queue := insort
            (queued_packet cfg d st
               (my_id st, msg_id, is_ack,
                case timestamp of None \<Rightarrow> my_timestamp st | Some t \<Rightarrow> t, message) host)
            (queue st)\<rparr>))"
proof -
  from assms have c: "(\<not> is_ack \<and> msg_id = None) = False"
    by auto
  show ?thesis
    unfolding unicast_send_def c
    by (simp add: queued_packet_def Let_def split: sum.splits prod.splits)
qed

text \<open>A call for a new message takes the next id and records the send first.\<close>

lemma unicast_send_new:
  "unicast_send cfg d destination message None False None st =
    (if drop_draw d \<le> drop_rate st
     then (Inr (),
           st\<lparr>message_id_counter := message_id_counter st + 1,
              unack_messages := unack_messages st @
                [(destination, message_id_counter st + 1, message, my_timestamp st)]\<rparr>)
     else case py_get (hosts cfg) destination of
       Inl e \<Rightarrow>
         (Inl e,
          st\<lparr>message_id_counter := message_id_counter st + 1,
             unack_messages := unack_messages st @
               [(destination, message_id_counter st + 1, message, my_timestamp st)]\<rparr>)
     | Inr host \<Rightarrow>
         (Inr (),
          st\<lparr>message_id_counter := message_id_counter st + 1,
             unack_messages := unack_messages st @
               [(destination, message_id_counter st + 1, message, my_timestamp st)],
             queue := insort
               (queued_packet cfg d st
                  (my_id st, Some (message_id_counter st + 1), False, my_timestamp st, message)
                  host)
               (queue st)\<rparr>))"
  by (simp add: unicast_send_def queued_packet_def Let_def split: sum.splits prod.splits)


section \<open>The retransmission tick of \<^verbatim>\<open>ack_handler\<close>\<close>

text \<open>
  An entry of the list is unacknowledged when its pair \<open>(destination, id)\<close> is not in
  \<^verbatim>\<open>has_acknowledged\<close>. The entry at position \<open>k\<close> of the list, if it is resent and
  the packet is not dropped, puts this element on the queue: the same id, the same
  timestamp, the same message, addressed to the host of its destination.
\<close>

definition unacknowledged :: "chat_state \<Rightarrow> unack \<Rightarrow> bool" where
  "unacknowledged st u = (case u of (dest_id, mid, message, ts) \<Rightarrow>
     (dest_id, mid) \<notin> has_acknowledged st)"

definition resent :: "config \<Rightarrow> (nat \<Rightarrow> draw) \<Rightarrow> chat_state \<Rightarrow> nat \<times> unack \<Rightarrow> queued" where
  "resent cfg ds st x = (case x of (k, dest_id, mid, message, ts) \<Rightarrow>
     queued_packet cfg (ds k) st (my_id st, Some mid, False, ts, message)
       (hosts cfg ! nat dest_id))"

definition passes_drop :: "(nat \<Rightarrow> draw) \<Rightarrow> chat_state \<Rightarrow> nat \<times> unack \<Rightarrow> bool" where
  "passes_drop ds st x = (case x of (k, u) \<Rightarrow>
     unacknowledged st u \<and> drop_rate st < drop_draw (ds k))"

definition known_destinations :: "config \<Rightarrow> unack list \<Rightarrow> bool" where
  "known_destinations cfg us =
     list_all (\<lambda>u. 0 \<le> fst u \<and> fst u < int (length (hosts cfg))) us"

lemma py_get_known: "0 \<le> i \<Longrightarrow> i < int (length xs) \<Longrightarrow> py_get xs i = Inr (xs ! nat i)"
  by (simp add: py_get_def py_index_def)

lemma ack_loop_value:
  "known_destinations cfg us \<Longrightarrow>
   ack_loop cfg ds i us new st =
     (Inr (new @ filter (unacknowledged st) us),
      st\<lparr>queue := foldl (\<lambda>q x. insort (resent cfg ds st x) q) (queue st)
                    (filter (passes_drop ds st) (enumerate i us))\<rparr>)"
proof (induction us arbitrary: i new st)
  case Nil
  then show ?case by simp
next
  case (Cons u us)
  obtain dest_id mid message ts where u: "u = (dest_id, mid, message, ts)"
    by (cases u)
  from Cons.prems have dest: "0 \<le> dest_id" "dest_id < int (length (hosts cfg))"
    and rest: "known_destinations cfg us"
    by (simp_all add: known_destinations_def u)
  note IH = Cons.IH[OF rest]
  have host: "py_get (hosts cfg) dest_id = Inr (hosts cfg ! nat dest_id)"
    using dest by (rule py_get_known)
  show ?case
  proof (cases "(dest_id, mid) \<in> has_acknowledged st")
    case True
    then show ?thesis
      by (simp add: u IH unacknowledged_def passes_drop_def)
  next
    case False
    show ?thesis
    proof (cases "drop_draw (ds i) \<le> drop_rate st")
      case True
      have "unicast_send cfg (ds i) dest_id message (Some mid) False (Some ts) st = (Inr (), st)"
        by (simp add: unicast_send_given_id True)
      with False True show ?thesis
        by (simp add: u IH unacknowledged_def passes_drop_def)
    next
      case dropped: False
      let ?st1 = "st\<lparr>queue := insort (resent cfg ds st (i, u)) (queue st)\<rparr>"
      have send: "unicast_send cfg (ds i) dest_id message (Some mid) False (Some ts) st =
          (Inr (), ?st1)"
        by (simp add: unicast_send_given_id dropped host resent_def u)
      have same: "resent cfg ds ?st1 = resent cfg ds st" "passes_drop ds ?st1 = passes_drop ds st"
        "unacknowledged ?st1 = unacknowledged st"
        by (auto simp: resent_def passes_drop_def unacknowledged_def queued_packet_def fun_eq_iff)
      have "ack_loop cfg ds i (u # us) new st = ack_loop cfg ds (Suc i) us (new @ [u]) ?st1"
        using False by (simp add: u send)
      also have "\<dots> = (Inr ((new @ [u]) @ filter (unacknowledged st) us),
          ?st1\<lparr>queue := foldl (\<lambda>q x. insort (resent cfg ds st x) q) (queue ?st1)
                    (filter (passes_drop ds st) (enumerate (Suc i) us))\<rparr>)"
        unfolding IH same ..
      also have "\<dots> = (Inr (new @ filter (unacknowledged st) (u # us)),
          st\<lparr>queue := foldl (\<lambda>q x. insort (resent cfg ds st x) q) (queue st)
                    (filter (passes_drop ds st) (enumerate i (u # us)))\<rparr>)"
        using False dropped by (simp add: u unacknowledged_def passes_drop_def)
      finally show ?thesis .
    qed
  qed
qed


lemma mset_foldl_insort:
  "mset (foldl (\<lambda>q x. insort (f x) q) q xs) = mset q + mset (map f xs)"
  by (induction xs arbitrary: q) simp_all

text \<open>
  C6. At a tick of \<^verbatim>\<open>ack_handler\<close>, all destinations in the list being known hosts,
  the scan returns and
  \<^item> the new list is the old one without its acknowledged entries: the unacknowledged
    entries are kept as they are, in their order;
  \<^item> no message id is assigned;
  \<^item> the queue gains one packet per unacknowledged entry that the fault injector does not
    drop, and no other: the packet carries the entry's id, its timestamp and its
    message, and is addressed to the host of the entry's destination.
\<close>

theorem ack_tick_resends_unchanged:
  assumes "known_destinations cfg (unack_messages st)"
  shows "ack_tick cfg ds st =
      (Inr (),
       st\<lparr>unack_messages := filter (unacknowledged st) (unack_messages st),
          queue := foldl (\<lambda>q x. insort (resent cfg ds st x) q) (queue st)
                     (filter (passes_drop ds st) (enumerate 0 (unack_messages st)))\<rparr>) \<and>
    message_id_counter (snd (ack_tick cfg ds st)) = message_id_counter st \<and>
    mset (queue (snd (ack_tick cfg ds st))) =
      mset (queue st) +
      mset (map (resent cfg ds st) (filter (passes_drop ds st) (enumerate 0 (unack_messages st))))"
proof -
  have tick: "ack_tick cfg ds st =
      (Inr (),
       st\<lparr>unack_messages := filter (unacknowledged st) (unack_messages st),
          queue := foldl (\<lambda>q x. insort (resent cfg ds st x) q) (queue st)
                     (filter (passes_drop ds st) (enumerate 0 (unack_messages st)))\<rparr>)"
    by (simp add: ack_tick_def ack_loop_value[OF assms])
  then show ?thesis
    by (simp add: mset_foldl_insort)
qed

theorem ack_tick_resends_unchanged_witness:
  "known_destinations \<lparr>hosts = [(''h0'', 5000), (''h1'', 5001)], pack = (\<lambda>fs. snd (snd (snd (snd fs)))),
       rnd = (\<lambda>x. x)\<rparr> [(0, 1, ''hi'', [1, 0]), (1, 2, ''hi'', [1, 0])] \<and>
   ack_tick \<lparr>hosts = [(''h0'', 5000), (''h1'', 5001)], pack = (\<lambda>fs. snd (snd (snd (snd fs)))),
       rnd = (\<lambda>x. x)\<rparr>
     (\<lambda>k. \<lparr>drop_draw = 3/4, delay_draw = 0, clock = 10\<rparr>)
     \<lparr>my_id = 0, delay_time = 1, drop_rate = 1/2, message_id_counter = 2,
      has_received = {}, has_acknowledged = {(0, 1)},
      unack_messages = [(0, 1, ''hi'', [1, 0]), (1, 2, ''hi'', [1, 0])],
      holdback_queue = [], queue = [], my_timestamp = [1, 0], delivered = [], wire = []\<rparr>
   = (Inr (),
      \<lparr>my_id = 0, delay_time = 1, drop_rate = 1/2, message_id_counter = 2,
       has_received = {}, has_acknowledged = {(0, 1)},
       unack_messages = [(1, 2, ''hi'', [1, 0])],
       holdback_queue = [], queue = [(10, ''hi'', ''h1'', 5001)], my_timestamp = [1, 0],
       delivered = [], wire = []\<rparr>)"
proof -
  let ?cfg = "\<lparr>hosts = [(''h0'', 5000), (''h1'', 5001)], pack = (\<lambda>fs. snd (snd (snd (snd fs)))),
       rnd = (\<lambda>x. x)\<rparr>"
  let ?us = "[(0::int, 1::int, ''hi'', [1::int, 0]), (1, 2, ''hi'', [1, 0])]"
  let ?st = "\<lparr>my_id = 0, delay_time = 1, drop_rate = 1/2, message_id_counter = 2,
      has_received = {}, has_acknowledged = {(0, 1)},
      unack_messages = ?us,
      holdback_queue = [], queue = [], my_timestamp = [1, 0], delivered = [], wire = []\<rparr>"
  have k: "known_destinations ?cfg ?us"
    by (simp add: known_destinations_def)
  then have k': "known_destinations ?cfg (unack_messages ?st)"
    by simp
  from ack_tick_resends_unchanged[OF k', THEN conjunct1] k show ?thesis
    by (simp add: unacknowledged_def passes_drop_def resent_def queued_packet_def uniform_def
        enumerate_eq_zip upt_rec)
qed


section \<open>The fault-injecting send queue\<close>

text \<open>The fields of the packet of a call: a new message takes the next id.\<close>

definition packet_fields ::
  "int option \<Rightarrow> bool \<Rightarrow> int list option \<Rightarrow> string \<Rightarrow> chat_state \<Rightarrow> fields" where
  "packet_fields msg_id is_ack timestamp message st =
     (my_id st,
      if \<not> is_ack \<and> msg_id = None then Some (message_id_counter st + 1) else msg_id,
      is_ack,
      case timestamp of None \<Rightarrow> my_timestamp st | Some t \<Rightarrow> t,
      message)"

lemma unicast_send_effect:
  "fst (unicast_send cfg d destination message msg_id is_ack timestamp st) =
     (if drop_draw d \<le> drop_rate st then Inr ()
      else case py_get (hosts cfg) destination of Inl e \<Rightarrow> Inl e | Inr host \<Rightarrow> Inr ())"
  "queue (snd (unicast_send cfg d destination message msg_id is_ack timestamp st)) =
     (if drop_draw d \<le> drop_rate st then queue st
      else case py_get (hosts cfg) destination of
        Inl e \<Rightarrow> queue st
      | Inr host \<Rightarrow>
          insort (queued_packet cfg d st (packet_fields msg_id is_ack timestamp message st) host)
            (queue st))"
  "wire (snd (unicast_send cfg d destination message msg_id is_ack timestamp st)) = wire st"
  "my_timestamp (snd (unicast_send cfg d destination message msg_id is_ack timestamp st)) =
     my_timestamp st"
  "holdback_queue (snd (unicast_send cfg d destination message msg_id is_ack timestamp st)) =
     holdback_queue st"
  "delivered (snd (unicast_send cfg d destination message msg_id is_ack timestamp st)) =
     delivered st"
  "has_received (snd (unicast_send cfg d destination message msg_id is_ack timestamp st)) =
     has_received st"
  by (auto simp: unicast_send_def queued_packet_def packet_fields_def Let_def
        split: sum.splits prod.splits)










section \<open>Stamping and multicasting a line of input\<close>

text \<open>
  The copy of a multicast for host \<open>i\<close>, sent \<open>k\<close>-th, when the counter of message ids
  stood at \<open>c\<close> before the first copy: the record of the send, and the element put on
  the queue unless the packet is dropped.
\<close>

definition copy_record :: "int \<Rightarrow> string \<Rightarrow> chat_state \<Rightarrow> nat \<times> nat \<Rightarrow> unack" where
  "copy_record c message st x =
     (case x of (k, i) \<Rightarrow> (int i, c + 1 + int k, message, my_timestamp st))"

definition copy_packet ::
  "config \<Rightarrow> (nat \<Rightarrow> draw) \<Rightarrow> int \<Rightarrow> string \<Rightarrow> chat_state \<Rightarrow> nat \<times> nat \<Rightarrow> queued" where
  "copy_packet cfg ds c message st x =
     (case x of (k, i) \<Rightarrow>
        queued_packet cfg (ds i) st
          (my_id st, Some (c + 1 + int k), False, my_timestamp st, message) (hosts cfg ! i))"

definition copy_passes :: "(nat \<Rightarrow> draw) \<Rightarrow> chat_state \<Rightarrow> nat \<times> nat \<Rightarrow> bool" where
  "copy_passes ds st x = (case x of (k, i) \<Rightarrow> drop_rate st < drop_draw (ds i))"

lemma py_get_nat: "i < length xs \<Longrightarrow> py_get xs (int i) = Inr (xs ! i)"
  by (simp add: py_get_def py_index_def)

lemma multicast_loop_value:
  "\<forall>i \<in> set ids. i < length (hosts cfg) \<Longrightarrow> message_id_counter st = c + int n \<Longrightarrow>
   multicast_loop cfg ds ids message st =
     (Inr (),
      st\<lparr>message_id_counter := c + int (n + length ids),
         unack_messages := unack_messages st @ map (copy_record c message st) (enumerate n ids),
         queue := foldl (\<lambda>q x. insort (copy_packet cfg ds c message st x) q) (queue st)
                    (filter (copy_passes ds st) (enumerate n ids))\<rparr>)"
proof (induction ids arbitrary: n st)
  case Nil
  then show ?case by simp
next
  case (Cons i ids)
  from Cons.prems have i: "i < length (hosts cfg)" and rest: "\<forall>i \<in> set ids. i < length (hosts cfg)"
    by simp_all
  have host: "py_get (hosts cfg) (int i) = Inr (hosts cfg ! i)"
    using i by (rule py_get_nat)
  let ?rec = "st\<lparr>message_id_counter := c + int (Suc n),
        unack_messages := unack_messages st @ [copy_record c message st (n, i)]\<rparr>"
  let ?st1 = "if drop_draw (ds i) \<le> drop_rate st then ?rec
     else ?rec\<lparr>queue := insort (copy_packet cfg ds c message st (n, i)) (queue st)\<rparr>"
  have send: "unicast_send cfg (ds i) (int i) message None False None st = (Inr (), ?st1)"
    using Cons.prems(2)
    by (simp add: unicast_send_new host copy_record_def copy_packet_def add_ac)
  have c1: "message_id_counter ?st1 = c + int (Suc n)"
    by simp
  have same: "copy_record c message ?st1 = copy_record c message st"
    "copy_packet cfg ds c message ?st1 = copy_packet cfg ds c message st"
    "copy_passes ds ?st1 = copy_passes ds st"
    by (auto simp: copy_record_def copy_packet_def copy_passes_def queued_packet_def fun_eq_iff)
  have "multicast_loop cfg ds (i # ids) message st = multicast_loop cfg ds ids message ?st1"
    by (simp only: multicast_loop.simps send prod.case sum.case)
  also have "\<dots> = (Inr (),
      ?st1\<lparr>message_id_counter := c + int (Suc n + length ids),
         unack_messages := unack_messages ?st1 @ map (copy_record c message st) (enumerate (Suc n) ids),
         queue := foldl (\<lambda>q x. insort (copy_packet cfg ds c message st x) q) (queue ?st1)
                    (filter (copy_passes ds st) (enumerate (Suc n) ids))\<rparr>)"
    unfolding Cons.IH[OF rest c1] same ..
  also have "\<dots> = (Inr (),
      st\<lparr>message_id_counter := c + int (n + length (i # ids)),
         unack_messages := unack_messages st @ map (copy_record c message st) (enumerate n (i # ids)),
         queue := foldl (\<lambda>q x. insort (copy_packet cfg ds c message st x) q) (queue st)
                    (filter (copy_passes ds st) (enumerate n (i # ids)))\<rparr>)"
    by (simp add: copy_passes_def)
  finally show ?case .
qed


lemma enumerate_upt_same: "enumerate 0 [0..<n] = map (\<lambda>i. (i, i)) [0..<n]"
  by (simp add: enumerate_eq_zip zip_same_conv_map)

lemma multicast_value:
  "multicast cfg ds message st =
     (Inr (),
      st\<lparr>message_id_counter := message_id_counter st + int (length (hosts cfg)),
         unack_messages := unack_messages st @
           map (\<lambda>i. (int i, message_id_counter st + 1 + int i, message, my_timestamp st))
             [0..<length (hosts cfg)],
         queue := foldl
           (\<lambda>q i. insort
              (queued_packet cfg (ds i) st
                 (my_id st, Some (message_id_counter st + 1 + int i), False, my_timestamp st,
                  message)
                 (hosts cfg ! i)) q)
           (queue st)
           (filter (\<lambda>i. drop_rate st < drop_draw (ds i)) [0..<length (hosts cfg)])\<rparr>)"
proof -
  have "multicast cfg ds message st =
     (Inr (),
      st\<lparr>message_id_counter := message_id_counter st + int (0 + length [0..<length (hosts cfg)]),
         unack_messages := unack_messages st @
           map (copy_record (message_id_counter st) message st)
             (enumerate 0 [0..<length (hosts cfg)]),
         queue := foldl (\<lambda>q x. insort (copy_packet cfg ds (message_id_counter st) message st x) q)
                    (queue st)
                    (filter (copy_passes ds st) (enumerate 0 [0..<length (hosts cfg)]))\<rparr>)"
    unfolding multicast_def by (rule multicast_loop_value) simp_all
  then show ?thesis
    by (simp add: enumerate_upt_same filter_map foldl_map comp_def copy_record_def
        copy_packet_def copy_passes_def)
qed

text \<open>
  C9. For a line of input, the own index being an index of the vector timestamp: the own
  entry is incremented by 1 first, and the multicast runs in the state so stamped. It
  returns; the record of every copy and every copy that is queued carry the stamped
  vector timestamp (the records and packets are listed: one copy per host \<open>i\<close>, under
  the message id \<open>counter + 1 + i\<close>, queued unless the fault injector drops it).
\<close>

theorem user_input_stamps_then_multicasts:
  assumes "0 \<le> my_id st" and "my_id st < int (length (my_timestamp st))"
  shows "user_input_line cfg ds line st =
      multicast cfg ds (butlast line)
        (st\<lparr>my_timestamp := incr (my_timestamp st) (nat (my_id st))\<rparr>) \<and>
    incr (my_timestamp st) (nat (my_id st)) ! nat (my_id st) =
      my_timestamp st ! nat (my_id st) + 1 \<and>
    user_input_line cfg ds line st =
      (Inr (),
       st\<lparr>my_timestamp := incr (my_timestamp st) (nat (my_id st)),
          message_id_counter := message_id_counter st + int (length (hosts cfg)),
          unack_messages := unack_messages st @
            map (\<lambda>i. (int i, message_id_counter st + 1 + int i, butlast line,
                       incr (my_timestamp st) (nat (my_id st))))
              [0..<length (hosts cfg)],
          queue := foldl
            (\<lambda>q i. insort
               (queued_packet cfg (ds i) st
                  (my_id st, Some (message_id_counter st + 1 + int i), False,
                   incr (my_timestamp st) (nat (my_id st)), butlast line)
                  (hosts cfg ! i)) q)
            (queue st)
            (filter (\<lambda>i. drop_rate st < drop_draw (ds i)) [0..<length (hosts cfg)])\<rparr>)"
proof -
  let ?V' = "incr (my_timestamp st) (nat (my_id st))"
  have ix: "py_index (my_timestamp st) (my_id st) = Inr (nat (my_id st))"
    using assms by (rule py_index_in_range)
  have stamp: "user_input_line cfg ds line st =
      multicast cfg ds (butlast line) (st\<lparr>my_timestamp := ?V'\<rparr>)"
    by (simp add: user_input_line_def ix incr_def)
  have plus: "?V' ! nat (my_id st) = my_timestamp st ! nat (my_id st) + 1"
    using assms by (simp add: incr_def)
  have "multicast cfg ds (butlast line) (st\<lparr>my_timestamp := ?V'\<rparr>) =
      (Inr (),
       st\<lparr>my_timestamp := ?V',
          message_id_counter := message_id_counter st + int (length (hosts cfg)),
          unack_messages := unack_messages st @
            map (\<lambda>i. (int i, message_id_counter st + 1 + int i, butlast line, ?V'))
              [0..<length (hosts cfg)],
          queue := foldl
            (\<lambda>q i. insort
               (queued_packet cfg (ds i) st
                  (my_id st, Some (message_id_counter st + 1 + int i), False, ?V', butlast line)
                  (hosts cfg ! i)) q)
            (queue st)
            (filter (\<lambda>i. drop_rate st < drop_draw (ds i)) [0..<length (hosts cfg)])\<rparr>)"
    by (simp add: multicast_value queued_packet_def)
  with stamp plus show ?thesis by simp
qed


theorem user_input_stamps_then_multicasts_witness:
  "(0::int) \<le> 0 \<and> (0::int) < int (length [0::int, 0]) \<and>
   my_timestamp (snd (user_input_line
     \<lparr>hosts = [(''h0'', 5000), (''h1'', 5001)], pack = (\<lambda>fs. snd (snd (snd (snd fs)))),
      rnd = (\<lambda>x. x)\<rparr>
     (\<lambda>i. \<lparr>drop_draw = 3/4, delay_draw = 1/2, clock = 10\<rparr>) (''hi'' @ [CHR 0x0A])
     \<lparr>my_id = 0, delay_time = 1, drop_rate = 1/2, message_id_counter = 0,
      has_received = {}, has_acknowledged = {}, unack_messages = [],
      holdback_queue = [], queue = [], my_timestamp = [0, 0], delivered = [], wire = []\<rparr>)) =
     [1, 0] \<and>
   unack_messages (snd (user_input_line
     \<lparr>hosts = [(''h0'', 5000), (''h1'', 5001)], pack = (\<lambda>fs. snd (snd (snd (snd fs)))),
      rnd = (\<lambda>x. x)\<rparr>
     (\<lambda>i. \<lparr>drop_draw = 3/4, delay_draw = 1/2, clock = 10\<rparr>) (''hi'' @ [CHR 0x0A])
     \<lparr>my_id = 0, delay_time = 1, drop_rate = 1/2, message_id_counter = 0,
      has_received = {}, has_acknowledged = {}, unack_messages = [],
      holdback_queue = [], queue = [], my_timestamp = [0, 0], delivered = [], wire = []\<rparr>)) =
     [(0, 1, ''hi'', [1, 0]), (1, 2, ''hi'', [1, 0])]"
proof -
  let ?cfg = "\<lparr>hosts = [(''h0'', 5000), (''h1'', 5001)], pack = (\<lambda>fs. snd (snd (snd (snd fs)))),
      rnd = (\<lambda>x. x)\<rparr>"
  let ?ds = "\<lambda>i::nat. \<lparr>drop_draw = 3/4, delay_draw = 1/2, clock = 10\<rparr>"
  let ?st = "\<lparr>my_id = 0, delay_time = 1, drop_rate = 1/2, message_id_counter = 0,
      has_received = {}, has_acknowledged = {}, unack_messages = [],
      holdback_queue = [], queue = [], my_timestamp = [0, 0], delivered = [], wire = []\<rparr>"
  have h1: "0 \<le> my_id ?st" and h2: "my_id ?st < int (length (my_timestamp ?st))"
    by simp_all
  note t = user_input_stamps_then_multicasts[OF h1 h2, of ?cfg ?ds "''hi'' @ [CHR 0x0A]",
      THEN conjunct2, THEN conjunct2]
  have V: "my_timestamp (snd (user_input_line ?cfg ?ds (''hi'' @ [CHR 0x0A]) ?st)) = [1, 0]"
    unfolding t by (simp add: incr_def)
  have U: "unack_messages (snd (user_input_line ?cfg ?ds (''hi'' @ [CHR 0x0A]) ?st)) =
      [(0, 1, ''hi'', [1, 0]), (1, 2, ''hi'', [1, 0])]"
    unfolding t by (simp add: incr_def upt_rec)
  from V U show ?thesis by simp
qed


section \<open>The vector timestamp only grows\<close>

text \<open>
  \<open>V'\<close> comes from \<open>V\<close> by increments by 1, each of one entry of the vector.
\<close>

definition grows :: "int list \<Rightarrow> int list \<Rightarrow> bool" where
  "grows V V' = (\<exists>ks. list_all (\<lambda>k. k < length V) ks \<and> V' = foldl incr V ks)"

lemma grows_refl: "grows V V"
  unfolding grows_def by (rule exI[of _ "[]"]) simp

lemma grows_foldl: "list_all (\<lambda>k. k < length V) ks \<Longrightarrow> grows V (foldl incr V ks)"
  unfolding grows_def by blast

lemma grows_incr: "k < length V \<Longrightarrow> grows V (incr V k)"
  using grows_foldl[of V "[k]"] by simp







text \<open>
  The sending operations leave alone what the receive path owns: the vector timestamp
  apart, that is the holdback queue, the log of deliveries and the received-set.
\<close>

definition receive_untouched :: "chat_state \<Rightarrow> chat_state \<Rightarrow> bool" where
  "receive_untouched st st' =
     (holdback_queue st' = holdback_queue st \<and> delivered st' = delivered st \<and>
      has_received st' = has_received st)"

lemma receive_untouched_refl: "receive_untouched st st"
  by (simp add: receive_untouched_def)

lemma receive_untouched_trans:
  "receive_untouched st st' \<Longrightarrow> receive_untouched st' st'' \<Longrightarrow> receive_untouched st st''"
  by (simp add: receive_untouched_def)

lemma unicast_send_untouched:
  "receive_untouched st (snd (unicast_send cfg d destination message msg_id is_ack timestamp st))"
  "my_timestamp (snd (unicast_send cfg d destination message msg_id is_ack timestamp st)) =
     my_timestamp st"
  by (simp_all add: receive_untouched_def unicast_send_effect)

lemma multicast_loop_untouched:
  "receive_untouched st (snd (multicast_loop cfg ds ids message st)) \<and>
   my_timestamp (snd (multicast_loop cfg ds ids message st)) = my_timestamp st"
proof (induction ids arbitrary: st)
  case Nil
  then show ?case by (simp add: receive_untouched_refl)
next
  case (Cons i ids)
  obtain x st1 where s: "unicast_send cfg (ds i) (int i) message None False None st = (x, st1)"
    by (cases "unicast_send cfg (ds i) (int i) message None False None st")
  have u: "receive_untouched st st1" "my_timestamp st1 = my_timestamp st"
    using unicast_send_untouched[where st = st and cfg = cfg and d = "ds i"
        and destination = "int i" and message = message and msg_id = None and is_ack = False
        and timestamp = None]
    by (simp_all add: s)
  show ?case
  proof (cases x)
    case (Inl e)
    with s u show ?thesis by simp
  next
    case (Inr v)
    with s u Cons.IH[of st1] show ?thesis
      by (auto intro: receive_untouched_trans)
  qed
qed

lemma ack_loop_untouched:
  "receive_untouched st (snd (ack_loop cfg ds i us new st)) \<and>
   my_timestamp (snd (ack_loop cfg ds i us new st)) = my_timestamp st"
proof (induction us arbitrary: i new st)
  case Nil
  then show ?case by (simp add: receive_untouched_refl)
next
  case (Cons u us)
  obtain dest_id mid message ts where u: "u = (dest_id, mid, message, ts)"
    by (cases u)
  show ?case
  proof (cases "(dest_id, mid) \<in> has_acknowledged st")
    case True
    with Cons.IH[of st "Suc i" new] show ?thesis by (simp add: u)
  next
    case False
    obtain x st1 where
      s: "unicast_send cfg (ds i) dest_id message (Some mid) False (Some ts) st = (x, st1)"
      by (cases "unicast_send cfg (ds i) dest_id message (Some mid) False (Some ts) st")
    have f: "receive_untouched st st1" "my_timestamp st1 = my_timestamp st"
      using unicast_send_untouched[where st = st and cfg = cfg and d = "ds i"
          and destination = dest_id and message = message and msg_id = "Some mid"
          and is_ack = False and timestamp = "Some ts"]
      by (simp_all add: s)
    show ?thesis
    proof (cases x)
      case (Inl e)
      with s f False show ?thesis by (simp add: u)
    next
      case (Inr v)
      with s f False Cons.IH[of st1 "Suc i" "new @ [u]"] show ?thesis
        by (auto simp: u intro: receive_untouched_trans)
    qed
  qed
qed

lemma ack_tick_untouched:
  "receive_untouched st (snd (ack_tick cfg ds st)) \<and>
   my_timestamp (snd (ack_tick cfg ds st)) = my_timestamp st"
proof -
  obtain x st1 where l: "ack_loop cfg ds 0 (unack_messages st) [] st = (x, st1)"
    by (cases "ack_loop cfg ds 0 (unack_messages st) [] st")
  with ack_loop_untouched[of st cfg ds 0 "unack_messages st" "[]"]
  have "receive_untouched st st1" "my_timestamp st1 = my_timestamp st"
    by simp_all
  then show ?thesis
    by (cases x) (simp_all add: ack_tick_def l receive_untouched_def)
qed

lemma message_queue_step_untouched:
  "receive_untouched st (message_queue_step now st) \<and>
   my_timestamp (message_queue_step now st) = my_timestamp st"
  by (cases "queue st")
     (auto simp: message_queue_step_def receive_untouched_def split: prod.splits if_splits)

lemma user_input_line_untouched:
  "receive_untouched st (snd (user_input_line cfg ds line st))"
  "grows (my_timestamp st) (my_timestamp (snd (user_input_line cfg ds line st)))"
proof -
  show "receive_untouched st (snd (user_input_line cfg ds line st))"
  proof (cases "py_index (my_timestamp st) (my_id st)")
    case (Inl e)
    then show ?thesis by (simp add: user_input_line_def receive_untouched_refl)
  next
    case (Inr k)
    let ?st1 = "st\<lparr>my_timestamp := (my_timestamp st)[k := my_timestamp st ! k + 1]\<rparr>"
    from multicast_loop_untouched[of ?st1 cfg ds "[0..<length (hosts cfg)]" "butlast line"]
    show ?thesis
      by (simp add: user_input_line_def Inr multicast_def receive_untouched_def)
  qed
  show "grows (my_timestamp st) (my_timestamp (snd (user_input_line cfg ds line st)))"
  proof (cases "py_index (my_timestamp st) (my_id st)")
    case (Inl e)
    then show ?thesis by (simp add: user_input_line_def grows_refl)
  next
    case (Inr k)
    let ?st1 = "st\<lparr>my_timestamp := (my_timestamp st)[k := my_timestamp st ! k + 1]\<rparr>"
    from Inr have "k < length (my_timestamp st)" by (rule py_index_bound)
    then have "grows (my_timestamp st) (incr (my_timestamp st) k)" by (rule grows_incr)
    with multicast_loop_untouched[of ?st1 cfg ds "[0..<length (hosts cfg)]" "butlast line"]
    show ?thesis
      by (simp add: user_input_line_def Inr multicast_def incr_def)
  qed
qed









section \<open>No message is delivered twice\<close>

text \<open>
  The calls of \<^verbatim>\<open>deliver\<close> made so far together with those the entries of the holdback
  queue stand for.
\<close>

definition deliveries :: "chat_state \<Rightarrow> (int \<times> string) multiset" where
  "deliveries st = mset (delivered st) + mset (map call (holdback_queue st))"

lemma deliver_removed_received:
  "has_received (snd (deliver_removed removed st)) = has_received st"
  using deliver_removed_any[of removed st] by auto

lemma deliver_removed_delivered:
  "\<exists>n. delivered (snd (deliver_removed removed st)) = delivered st @ map call (take n removed)"
proof -
  from deliver_removed_any[of removed st] obtain n where
    "snd (deliver_removed removed st) =
       st\<lparr>my_timestamp :=
            foldl incr (my_timestamp st) (map (slot (length (my_timestamp st))) (take n removed)),
          delivered := delivered st @ map call (take n removed)\<rparr>"
    by blast
  then have "delivered (snd (deliver_removed removed st)) =
      delivered st @ map call (take n removed)"
    by simp
  then show ?thesis ..
qed

lemma released_part: "mset (released st) \<subseteq># mset (holdback_queue st)"
  by (simp add: released_def)

lemma holdback_pass_any:
  "has_received (snd (holdback_pass st)) = has_received st"
  "mset (delivered (snd (holdback_pass st))) \<subseteq># deliveries st"
proof -
  have d: "mset (delivered (snd (deliver_removed (released st) st))) \<subseteq># deliveries st"
  proof -
    from deliver_removed_delivered[of "released st" st] obtain n where
      n: "delivered (snd (deliver_removed (released st) st)) =
          delivered st @ map call (take n (released st))"
      by blast
    have "mset (take n (released st)) \<subseteq># mset (released st)"
      by (metis append_take_drop_id mset_append mset_subset_eq_add_left)
    then have "mset (take n (released st)) \<subseteq># mset (holdback_queue st)"
      using released_part[of st] by (rule subset_mset.order_trans)
    then have "image_mset call (mset (take n (released st))) \<subseteq>#
        image_mset call (mset (holdback_queue st))"
      by (rule image_mset_subseteq_mono)
    then show ?thesis
      by (simp add: n deliveries_def)
  qed
  show "has_received (snd (holdback_pass st)) = has_received st"
    by (cases st rule: holdback_pass_cases) (simp_all add: deliver_removed_received)
  show "mset (delivered (snd (holdback_pass st))) \<subseteq># deliveries st"
  proof (cases st rule: holdback_pass_cases)
    case (scan_raises e)
    then show ?thesis by (simp add: deliveries_def)
  next
    case (deliver_raises e)
    with d show ?thesis by simp
  next
    case returns
    with d show ?thesis by simp
  qed
qed

lemma holdback_pass_deliveries:
  assumes "holdback_pass st = (Inr stop, st')"
  shows "deliveries st' = deliveries st"
proof -
  note ok = holdback_pass_ok[OF assms]
  have k: "kept st = filter (\<lambda>e. removable (my_timestamp st) e \<noteq> Inr True) (holdback_queue st)"
    unfolding kept_def
  proof (rule filter_cong[OF refl])
    fix e assume "e \<in> set (holdback_queue st)"
    with ok(3) have ne: "removable (my_timestamp st) e \<noteq> Inl IndexError" by blast
    show "(removable (my_timestamp st) e = Inr False) = (removable (my_timestamp st) e \<noteq> Inr True)"
    proof (cases "removable (my_timestamp st) e")
      case (Inl err)
      with ne show ?thesis by (cases err) simp
    next
      case (Inr b)
      then show ?thesis by simp
    qed
  qed
  have "mset (holdback_queue st) = mset (released st) + mset (kept st)"
    unfolding k released_def by simp
  then have "image_mset call (mset (holdback_queue st)) =
      image_mset call (mset (released st)) + image_mset call (mset (kept st))"
    by simp
  then show ?thesis
    by (simp add: deliveries_def ok(1))
qed

lemma update_holdback_queue_any:
  "has_received (snd (update_holdback_queue st)) = has_received st \<and>
   mset (delivered (snd (update_holdback_queue st))) \<subseteq># deliveries st \<and>
   (fst (update_holdback_queue st) = Inr () \<longrightarrow>
      deliveries (snd (update_holdback_queue st)) = deliveries st)"
proof (induction st rule: update_by_passes)
  case (raises st e st')
  with holdback_pass_any[of st] show ?case
    by (simp add: update_raise)
next
  case (stops st st')
  from holdback_pass_stop(1)[OF stops] have "st' = st" .
  then show ?case
    by (simp add: update_stop[OF stops] deliveries_def)
next
  case (goes_on st st')
  from holdback_pass_any(1)[of st] goes_on(1) have r: "has_received st' = has_received st"
    by simp
  from holdback_pass_deliveries[OF goes_on(1)] have d: "deliveries st' = deliveries st" .
  from goes_on(2) show ?case
    by (simp add: update_more[OF goes_on(1)] r d)
qed


text \<open>
  Of a received datagram: whether it is a data message, its pair \<open>(sender, id)\<close>, and the
  call of \<^verbatim>\<open>deliver\<close> it leads to. The data messages among the datagrams of a sequence
  of operations.
\<close>

definition is_data :: "envelope \<Rightarrow> bool" where
  "is_data env = (case env of (sender, mid, is_ack, ts, message) \<Rightarrow> \<not> is_ack)"

definition key :: "envelope \<Rightarrow> int \<times> int" where
  "key env = (case env of (sender, mid, is_ack, ts, message) \<Rightarrow> (sender, mid))"

definition shown :: "envelope \<Rightarrow> int \<times> string" where
  "shown env = (case env of (sender, mid, is_ack, ts, message) \<Rightarrow> (sender, message))"

fun received_data :: "event list \<Rightarrow> envelope list" where
  "received_data [] = []"
| "received_data (Datagram d env # evs) =
     (if is_data env then env # received_data evs else received_data evs)"
| "received_data (ev # evs) = received_data evs"

text \<open>
  The invariant: the data messages \<open>A\<close> accepted so far have distinct pairs, all in the
  received-set, and every delivery made is the delivery of one of them, each at most
  once; while the receiving thread lives, the deliveries made and those still held back
  are exactly those of \<open>A\<close>.
\<close>

definition once :: "thread set \<Rightarrow> chat_state \<Rightarrow> envelope list \<Rightarrow> bool" where
  "once dead st A =
     (distinct (map key A) \<and> set (map key A) \<subseteq> has_received st \<and>
      mset (delivered st) \<subseteq># mset (map shown A) \<and>
      (Incoming_message_handler \<notin> dead \<longrightarrow> deliveries st = mset (map shown A)))"

lemma once_untouched:
  assumes "once dead st A" "receive_untouched st st'" "dead \<subseteq> dead'"
    "Incoming_message_handler \<in> dead' \<longrightarrow> Incoming_message_handler \<in> dead"
  shows "once dead' st' A"
  using assms unfolding once_def receive_untouched_def deliveries_def by auto

lemma once_dead:
  assumes "once dead st A" "Incoming_message_handler \<notin> dead"
    "has_received st' = has_received st" "mset (delivered st') \<subseteq># deliveries st"
  shows "once (insert Incoming_message_handler dead) st' A"
  using assms unfolding once_def by auto


lemma once_accept:
  assumes inv: "once dead st A" and alive: "Incoming_message_handler \<notin> dead"
    and new: "(sender, mid) \<notin> has_received st"
  shows "once dead
     (st\<lparr>has_received := insert (sender, mid) (has_received st),
        holdback_queue := holdback_queue st @ [(sender, ts, message)]\<rparr>)
     (A @ [(sender, mid, False, ts, message)])"
proof -
  from inv new have fresh: "(sender, mid) \<notin> set (map key A)"
    unfolding once_def by blast
  from inv have "mset (delivered st) \<subseteq># mset (map shown A)"
    unfolding once_def by blast
  moreover have "mset (map shown A) \<subseteq># mset (map shown (A @ [(sender, mid, False, ts, message)]))"
    by simp
  ultimately have sub: "mset (delivered st) \<subseteq>#
      mset (map shown (A @ [(sender, mid, False, ts, message)]))"
    by (rule subset_mset.order_trans)
  from inv alive have "deliveries st = mset (map shown A)"
    unfolding once_def by blast
  then have all: "deliveries
     (st\<lparr>has_received := insert (sender, mid) (has_received st),
        holdback_queue := holdback_queue st @ [(sender, ts, message)]\<rparr>) =
     mset (map shown (A @ [(sender, mid, False, ts, message)]))"
    by (simp add: deliveries_def shown_def)
  from inv fresh have "distinct (map key (A @ [(sender, mid, False, ts, message)]))"
    "set (map key (A @ [(sender, mid, False, ts, message)])) \<subseteq>
       insert (sender, mid) (has_received st)"
    unfolding once_def by (auto simp: key_def)
  with sub all show ?thesis
    unfolding once_def by simp
qed

lemma once_update:
  assumes inv: "once dead st A" and alive: "Incoming_message_handler \<notin> dead"
  shows "once (case fst (update_holdback_queue st) of
                 Inl e \<Rightarrow> insert Incoming_message_handler dead | Inr u \<Rightarrow> dead)
           (snd (update_holdback_queue st)) A"
proof (cases "fst (update_holdback_queue st)")
  case (Inl e)
  from update_holdback_queue_any[of st]
  have "has_received (snd (update_holdback_queue st)) = has_received st"
    "mset (delivered (snd (update_holdback_queue st))) \<subseteq># deliveries st"
    by simp_all
  from once_dead[OF inv alive this] Inl show ?thesis by simp
next
  case (Inr u)
  with update_holdback_queue_any[of st]
  have r: "has_received (snd (update_holdback_queue st)) = has_received st"
    and d: "deliveries (snd (update_holdback_queue st)) = deliveries st"
    by simp_all
  have "mset (delivered (snd (update_holdback_queue st))) \<subseteq>#
      deliveries (snd (update_holdback_queue st))"
    by (simp add: deliveries_def)
  with inv alive r d Inr show ?thesis
    unfolding once_def by simp
qed

lemma receive_once:
  assumes inv: "once dead st A" and alive: "Incoming_message_handler \<notin> dead"
  shows "\<exists>A'. once (case fst (unicast_receive cfg d env st) of
                      Inl e \<Rightarrow> insert Incoming_message_handler dead | Inr b \<Rightarrow> dead)
                (snd (unicast_receive cfg d env st)) A' \<and>
              set A' \<subseteq> set A \<union> (if is_data env then {env} else {})"
proof -
  obtain sender mid is_ack ts message where env: "env = (sender, mid, is_ack, ts, message)"
    by (cases env)
  show ?thesis
  proof (cases is_ack)
    case True
    have "receive_untouched st
        (st\<lparr>has_acknowledged := insert (sender, mid) (has_acknowledged st)\<rparr>)"
      by (simp add: receive_untouched_def)
    from once_untouched[OF inv this] True show ?thesis
      by (intro exI[of _ A]) (simp add: unicast_receive_def env)
  next
    case False
    obtain y st1 where s: "unicast_send cfg d sender [] (Some mid) True None st = (y, st1)"
      by (cases "unicast_send cfg d sender [] (Some mid) True None st")
    have u: "receive_untouched st st1"
      using unicast_send_untouched(1)[where st = st and cfg = cfg and d = d
          and destination = sender and message = "[]" and msg_id = "Some mid"
          and is_ack = True and timestamp = None]
      by (simp add: s)
    then have r1: "has_received st1 = has_received st" and d1: "delivered st1 = delivered st"
      by (simp_all add: receive_untouched_def)
    show ?thesis
    proof (cases y)
      case (Inl e)
      have "mset (delivered st1) \<subseteq># deliveries st"
        by (simp add: d1 deliveries_def)
      from once_dead[OF inv alive r1 this] False s Inl show ?thesis
        by (intro exI[of _ A]) (simp add: unicast_receive_def env)
    next
      case (Inr v)
      from once_untouched[OF inv u, of dead] have inv1: "once dead st1 A" by simp
      show ?thesis
      proof (cases "(sender, mid) \<in> has_received st1")
        case True
        with inv1 False s Inr show ?thesis
          by (intro exI[of _ A]) (simp add: unicast_receive_def env)
      next
        case new: False
        let ?st2 = "st1\<lparr>has_received := insert (sender, mid) (has_received st1),
                       holdback_queue := holdback_queue st1 @ [(sender, ts, message)]\<rparr>"
        let ?A' = "A @ [(sender, mid, False, ts, message)]"
        from once_accept[OF inv1 alive new] have inv2: "once dead ?st2 ?A'" .
        obtain z st3 where up: "update_holdback_queue ?st2 = (z, st3)"
          by (cases "update_holdback_queue ?st2")
        from once_update[OF inv2 alive] up
        have inv3: "once (case z of Inl e \<Rightarrow> insert Incoming_message_handler dead
                           | Inr u \<Rightarrow> dead) st3 ?A'"
          by simp
        have rec: "unicast_receive cfg d env st =
            (case z of Inl e \<Rightarrow> Inl e | Inr u \<Rightarrow> Inr True, st3)"
          using False s Inr new up by (cases z) (simp_all add: unicast_receive_def env)
        have sub: "set ?A' \<subseteq> set A \<union> (if is_data env then {env} else {})"
          using False by (simp add: env is_data_def)
        from inv3 sub show ?thesis
          unfolding rec by (intro exI[of _ ?A']) (cases z; simp)
      qed
    qed
  qed
qed


lemma step_once:
  assumes inv: "once dead st A" and alive: "thread_of ev \<notin> dead"
  shows "\<exists>A'. once (case fst (step cfg ev st) of
                      Inl e \<Rightarrow> insert (thread_of ev) dead | Inr u \<Rightarrow> dead)
                (snd (step cfg ev st)) A' \<and>
              set A' \<subseteq> set A \<union> set (received_data [ev])"
proof (cases ev)
  case (Datagram d env)
  obtain x st' where r: "unicast_receive cfg d env st = (x, st')"
    by (cases "unicast_receive cfg d env st")
  from alive Datagram have "Incoming_message_handler \<notin> dead" by simp
  from receive_once[OF inv this, of cfg d env] r obtain A' where
    "once (case x of Inl e \<Rightarrow> insert Incoming_message_handler dead | Inr b \<Rightarrow> dead) st' A'"
    "set A' \<subseteq> set A \<union> (if is_data env then {env} else {})"
    by auto
  then show ?thesis
    unfolding Datagram thread_of.simps by (intro exI[of _ A']) (cases x; auto simp: r split: if_splits)
next
  case (Tick ds)
  have "once (case fst (ack_tick cfg ds st) of
                Inl e \<Rightarrow> insert Ack_handler dead | Inr u \<Rightarrow> dead)
          (snd (ack_tick cfg ds st)) A"
    using inv ack_tick_untouched[of st cfg ds, THEN conjunct1]
    by (rule once_untouched) (auto split: sum.splits)
  then show ?thesis
    unfolding Tick thread_of.simps by (intro exI[of _ A]) simp
next
  case (Drain now)
  have "once dead (message_queue_step now st) A"
    using inv message_queue_step_untouched[of st now, THEN conjunct1]
    by (rule once_untouched) auto
  then show ?thesis
    unfolding Drain thread_of.simps by (intro exI[of _ A]) simp
next
  case (Line ds line)
  have "once (case fst (user_input_line cfg ds line st) of
                Inl e \<Rightarrow> insert User_input_handler dead | Inr u \<Rightarrow> dead)
          (snd (user_input_line cfg ds line st)) A"
    using inv user_input_line_untouched(1)[of st cfg ds line]
    by (rule once_untouched) (auto split: sum.splits)
  then show ?thesis
    unfolding Line thread_of.simps by (intro exI[of _ A]) simp
qed

lemma received_data_Cons: "set (received_data (ev # evs)) = set (received_data [ev]) \<union> set (received_data evs)"
  by (cases ev) auto

lemma run_once:
  "once dead st A \<Longrightarrow>
   \<exists>A'. once (fst (run cfg evs (dead, st))) (snd (run cfg evs (dead, st))) A' \<and>
        set A' \<subseteq> set A \<union> set (received_data evs)"
proof (induction evs arbitrary: dead st A)
  case Nil
  then show ?case by (intro exI[of _ A]) simp
next
  case (Cons ev evs)
  show ?case
  proof (cases "thread_of ev \<in> dead")
    case True
    from Cons.IH[OF Cons.prems] obtain A' where
      "once (fst (run cfg evs (dead, st))) (snd (run cfg evs (dead, st))) A'"
      "set A' \<subseteq> set A \<union> set (received_data evs)"
      by blast
    with True show ?thesis
      by (intro exI[of _ A']) (auto simp: received_data_Cons[of ev evs])
  next
    case False
    obtain x st1 where s: "step cfg ev st = (x, st1)"
      by (cases "step cfg ev st")
    let ?dead1 = "case x of Inl e \<Rightarrow> insert (thread_of ev) dead | Inr u \<Rightarrow> dead"
    from step_once[OF Cons.prems False, of cfg] s obtain A1 where
      A1: "once ?dead1 st1 A1" "set A1 \<subseteq> set A \<union> set (received_data [ev])"
      by auto
    from Cons.IH[OF A1(1)] obtain A' where
      A': "once (fst (run cfg evs (?dead1, st1))) (snd (run cfg evs (?dead1, st1))) A'"
        "set A' \<subseteq> set A1 \<union> set (received_data evs)"
      by blast
    have r: "run cfg (ev # evs) (dead, st) = run cfg evs (?dead1, st1)"
      using False s by (cases x) simp_all
    from A1(2) A'(2) have "set A' \<subseteq> set A \<union> set (received_data (ev # evs))"
      unfolding received_data_Cons[of ev evs] by blast
    with A'(1) show ?thesis
      unfolding r by blast
  qed
qed

lemma init_once: "once {} (init process_id delay dropr num_processes) []"
  by (simp add: once_def init_def deliveries_def)


text \<open>
  C4. A data message whose pair \<open>(sender, id)\<close> is in the received-set already is
  acknowledged like any other: \<^verbatim>\<open>unicast_receive\<close> makes the call
  \<^verbatim>\<open>unicast_send(sender, "", id, True)\<close> and does nothing more. So the acknowledgement
  with that id goes on the queue for the sender's host (unless the fault injector drops
  it; an unknown sender raises), and apart from that the state is as before: no delivery,
  no new entry of the holdback queue, the same vector timestamp, the same received-set;
  the result is \<^verbatim>\<open>False\<close>.

  Consequently, along every sequence of operations from the initial state, the calls of
  \<^verbatim>\<open>deliver\<close> made can be matched, one to one, with data messages received that have
  pairwise different pairs \<open>(sender, id)\<close>: \<^verbatim>\<open>deliver\<close> is called at most once for a
  pair.
\<close>

theorem duplicate_acknowledged_not_delivered:
  "((sender, mid) \<in> has_received st \<longrightarrow>
      unicast_receive cfg d (sender, mid, False, ts, message) st =
        (case unicast_send cfg d sender [] (Some mid) True None st of
           (Inl e, st') \<Rightarrow> (Inl e, st') | (Inr u, st') \<Rightarrow> (Inr False, st')) \<and>
      unicast_receive cfg d (sender, mid, False, ts, message) st =
        (if drop_draw d \<le> drop_rate st then (Inr False, st)
         else case py_get (hosts cfg) sender of
           Inl e \<Rightarrow> (Inl e, st)
         | Inr host \<Rightarrow>
             (Inr False,
              st\<lparr>queue := insort
                 (queued_packet cfg d st (my_id st, Some mid, True, my_timestamp st, []) host)
                 (queue st)\<rparr>)) \<and>
      delivered (snd (unicast_receive cfg d (sender, mid, False, ts, message) st)) = delivered st \<and>
      holdback_queue (snd (unicast_receive cfg d (sender, mid, False, ts, message) st)) =
        holdback_queue st \<and>
      my_timestamp (snd (unicast_receive cfg d (sender, mid, False, ts, message) st)) =
        my_timestamp st \<and>
      has_received (snd (unicast_receive cfg d (sender, mid, False, ts, message) st)) =
        has_received st) \<and>
   (\<exists>A. distinct (map key A) \<and> set A \<subseteq> set (received_data evs) \<and>
      mset (delivered (snd (run cfg evs ({}, init process_id delay dropr num_processes))))
        \<subseteq># mset (map shown A))"
proof (intro conjI impI)
  assume dup: "(sender, mid) \<in> has_received st"
  let ?r = "unicast_receive cfg d (sender, mid, False, ts, message) st"
  obtain y st1 where s: "unicast_send cfg d sender [] (Some mid) True None st = (y, st1)"
    by (cases "unicast_send cfg d sender [] (Some mid) True None st")
  have u: "receive_untouched st st1" "my_timestamp st1 = my_timestamp st"
    using unicast_send_untouched[where st = st and cfg = cfg and d = d
        and destination = sender and message = "[]" and msg_id = "Some mid"
        and is_ack = True and timestamp = None]
    by (simp_all add: s)
  with dup have in1: "(sender, mid) \<in> has_received st1"
    by (simp add: receive_untouched_def)
  have r: "?r = (case y of Inl e \<Rightarrow> Inl e | Inr u \<Rightarrow> Inr False, st1)"
    using in1 by (cases y) (simp_all add: unicast_receive_def s)
  show "?r = (case unicast_send cfg d sender [] (Some mid) True None st of
           (Inl e, st') \<Rightarrow> (Inl e, st') | (Inr u, st') \<Rightarrow> (Inr False, st'))"
    unfolding r s by (cases y) simp_all
  then show "?r =
        (if drop_draw d \<le> drop_rate st then (Inr False, st)
         else case py_get (hosts cfg) sender of
           Inl e \<Rightarrow> (Inl e, st)
         | Inr host \<Rightarrow>
             (Inr False,
              st\<lparr>queue := insort
                 (queued_packet cfg d st (my_id st, Some mid, True, my_timestamp st, []) host)
                 (queue st)\<rparr>))"
    by (simp add: unicast_send_given_id split: sum.splits)
  from u show "delivered (snd ?r) = delivered st" "holdback_queue (snd ?r) = holdback_queue st"
    "my_timestamp (snd ?r) = my_timestamp st" "has_received (snd ?r) = has_received st"
    by (simp_all add: r receive_untouched_def)
next
  from run_once[OF init_once, of cfg evs process_id delay dropr num_processes]
  obtain A where
    "once (fst (run cfg evs ({}, init process_id delay dropr num_processes)))
       (snd (run cfg evs ({}, init process_id delay dropr num_processes))) A"
    "set A \<subseteq> set (received_data evs)"
    by auto
  then show "\<exists>A. distinct (map key A) \<and> set A \<subseteq> set (received_data evs) \<and>
      mset (delivered (snd (run cfg evs ({}, init process_id delay dropr num_processes))))
        \<subseteq># mset (map shown A)"
    unfolding once_def by blast
qed


theorem duplicate_acknowledged_not_delivered_witness:
  "(1, 1) \<in> has_received
     \<lparr>my_id = 0, delay_time = 1, drop_rate = 1/2, message_id_counter = 0,
      has_received = {(1, 1)}, has_acknowledged = {}, unack_messages = [],
      holdback_queue = [], queue = [], my_timestamp = [0, 1], delivered = [(1, ''yo'')],
      wire = []\<rparr> \<and>
   unicast_receive
     \<lparr>hosts = [(''h0'', 5000), (''h1'', 5001)], pack = (\<lambda>fs. snd (snd (snd (snd fs)))),
      rnd = (\<lambda>x. x)\<rparr>
     \<lparr>drop_draw = 3/4, delay_draw = 1/2, clock = 10\<rparr> (1, 1, False, [0, 1], ''yo'')
     \<lparr>my_id = 0, delay_time = 1, drop_rate = 1/2, message_id_counter = 0,
      has_received = {(1, 1)}, has_acknowledged = {}, unack_messages = [],
      holdback_queue = [], queue = [], my_timestamp = [0, 1], delivered = [(1, ''yo'')],
      wire = []\<rparr>
   = (Inr False,
      \<lparr>my_id = 0, delay_time = 1, drop_rate = 1/2, message_id_counter = 0,
       has_received = {(1, 1)}, has_acknowledged = {}, unack_messages = [],
       holdback_queue = [], queue = [(11, [], ''h1'', 5001)], my_timestamp = [0, 1],
       delivered = [(1, ''yo'')], wire = []\<rparr>) \<and>
   delivered (snd (run
     \<lparr>hosts = [(''h0'', 5000), (''h1'', 5001)], pack = (\<lambda>fs. snd (snd (snd (snd fs)))),
      rnd = (\<lambda>x. x)\<rparr>
     [Datagram \<lparr>drop_draw = 3/4, delay_draw = 1/2, clock = 10\<rparr> (1, 1, False, [0, 1], ''yo''),
      Datagram \<lparr>drop_draw = 3/4, delay_draw = 1/2, clock = 10\<rparr> (1, 1, False, [0, 1], ''yo'')]
     ({}, \<lparr>my_id = 0, delay_time = 1, drop_rate = 1/2, message_id_counter = 0,
      has_received = {}, has_acknowledged = {}, unack_messages = [],
      holdback_queue = [], queue = [], my_timestamp = [0, 0], delivered = [],
      wire = []\<rparr>))) = [(1, ''yo'')]"
proof -
  let ?cfg = "\<lparr>hosts = [(''h0'', 5000), (''h1'', 5001)], pack = (\<lambda>fs. snd (snd (snd (snd fs)))),
      rnd = (\<lambda>x. x)\<rparr>"
  let ?d = "\<lparr>drop_draw = 3/4, delay_draw = 1/2, clock = 10\<rparr>"
  let ?st = "\<lparr>my_id = 0, delay_time = 1, drop_rate = 1/2, message_id_counter = 0,
      has_received = {(1, 1)}, has_acknowledged = {}, unack_messages = [],
      holdback_queue = [], queue = [], my_timestamp = [0, 1], delivered = [(1, ''yo'')],
      wire = []\<rparr>"
  have dup: "(1, 1) \<in> has_received ?st"
    by simp
  note t = duplicate_acknowledged_not_delivered[where st = ?st and cfg = ?cfg and d = ?d
      and sender = 1 and mid = 1 and ts = "[0, 1]" and message = "''yo''",
      THEN conjunct1, rule_format, OF dup, THEN conjunct2, THEN conjunct1]
  have a: "unicast_receive ?cfg ?d (1, 1, False, [0, 1], ''yo'') ?st =
      (Inr False, ?st\<lparr>queue := [(11, [], ''h1'', 5001)]\<rparr>)"
    unfolding t by (simp add: py_get_def py_index_def queued_packet_def uniform_def)
  have b: "delivered (snd (run ?cfg [Datagram ?d (1, 1, False, [0, 1], ''yo''),
      Datagram ?d (1, 1, False, [0, 1], ''yo'')]
     ({}, \<lparr>my_id = 0, delay_time = 1, drop_rate = 1/2, message_id_counter = 0,
      has_received = {}, has_acknowledged = {}, unack_messages = [],
      holdback_queue = [], queue = [], my_timestamp = [0, 0], delivered = [],
      wire = []\<rparr>))) = [(1, ''yo'')]"
    by (simp add: unicast_receive_def unicast_send_def update_holdback_queue.simps
        holdback_pass_def should_remove_def py_get_def py_index_def deliver_def upt_rec Let_def)
  from dup a b show ?thesis by simp
qed

end
